theory Spec2Isabelle
  imports Main "HOL-Library.Sublist"
begin

section \<open>Strings and character classes of the host language\<close>

text \<open>
  The extension is TypeScript; its strings are modelled as \<^typ>\<open>string\<close> (lists of 8-bit
  characters), that is, JavaScript strings restricted to code units below 256.  On that
  range the class \<open>\s\<close> of a regular expression and the characters removed by
  \<open>trim\<close> are TAB, LF, VT, FF, CR, SPACE and NBSP; a line terminator (where \<open>.\<close> stops and
  where \<open>^\<close> and \<open>$\<close> match under the \<open>m\<close> flag) is LF or CR; \<open>\w\<close> is \<open>[A-Za-z0-9_]\<close>.
\<close>

definition newline :: char where
  "newline = CHR 0x0A"

definition dquote :: char where
  "dquote = CHR 0x22"

definition squote :: char where
  "squote = CHR 0x27"

definition backtick :: char where
  "backtick = CHR 0x60"

definition isLineTerminator :: "char \<Rightarrow> bool" where
  "isLineTerminator c \<longleftrightarrow> c = CHR 0x0A \<or> c = CHR 0x0D"

definition isSpace :: "char \<Rightarrow> bool" where
  "isSpace c \<longleftrightarrow>
     c = CHR 0x09 \<or> c = CHR 0x0A \<or> c = CHR 0x0B \<or> c = CHR 0x0C \<or> c = CHR 0x0D \<or>
     c = CHR 0x20 \<or> c = CHR 0xA0"

definition isWord :: "char \<Rightarrow> bool" where
  "isWord c \<longleftrightarrow>
     (let n = (of_char c :: nat)
      in (97 \<le> n \<and> n \<le> 122) \<or> (65 \<le> n \<and> n \<le> 90) \<or> (48 \<le> n \<and> n \<le> 57) \<or> n = 95)"

definition startsWith :: "string \<Rightarrow> string \<Rightarrow> bool" where
  "startsWith s p \<longleftrightarrow> prefix p s"

definition endsWith :: "string \<Rightarrow> string \<Rightarrow> bool" where
  "endsWith s p \<longleftrightarrow> suffix p s"

fun includes_str :: "string \<Rightarrow> string \<Rightarrow> bool" where
  "includes_str [] sub \<longleftrightarrow> sub = []"
| "includes_str (c # cs) sub \<longleftrightarrow> prefix sub (c # cs) \<or> includes_str cs sub"

definition trimLeft :: "string \<Rightarrow> string" where
  "trimLeft s = dropWhile isSpace s"

definition trimRight :: "string \<Rightarrow> string" where
  "trimRight s = rev (dropWhile isSpace (rev s))"

definition trim :: "string \<Rightarrow> string" where
  "trim s = trimRight (trimLeft s)"

text \<open>\<open>s.substring(0, n)\<close>: the end index is clamped to the length of the string.\<close>

definition substring0 :: "string \<Rightarrow> nat \<Rightarrow> string" where
  "substring0 s n = take n s"

text \<open>\<open>s.split(",")\<close>: the empty string splits into one empty piece.\<close>

fun split_at :: "char \<Rightarrow> string \<Rightarrow> string list" where
  "split_at sep [] = [[]]"
| "split_at sep (c # cs) =
     (if c = sep then [] # split_at sep cs
      else (case split_at sep cs of [] \<Rightarrow> [[c]] | p # ps \<Rightarrow> (c # p) # ps))"

text \<open>\<open>xs.join(sep)\<close>.\<close>

fun join :: "string \<Rightarrow> string list \<Rightarrow> string" where
  "join sep [] = []"
| "join sep [x] = x"
| "join sep (x # y # ys) = x @ sep @ join sep (y # ys)"

section \<open>Regular expressions of the source, as matchers\<close>

text \<open>
  A matcher tries its regular expression at the head of the text and returns the text
  that remains after the match.  Every quantifier of the expressions below is followed
  by a character outside the class it repeats (or by nothing that can fail), so the
  greedy choice is the only one that can succeed and no backtracking is lost.

  \<open>removeMatches m\<close> is \<open>s.replace(re, "")\<close> for a \<open>g\<close>-flagged expression: the text is scanned
  from the left, a match is dropped and the scan goes on behind it.  An empty match
  would be replaced by nothing and the scan would step over one character, which is
  what the last branch does.
\<close>

type_synonym matcher = "string \<Rightarrow> string option"

fun removeMatches :: "matcher \<Rightarrow> string \<Rightarrow> string" where
  "removeMatches m [] = []"
| "removeMatches m (c # cs) =
     (case m (c # cs) of
        None \<Rightarrow> c # removeMatches m cs
      | Some rest \<Rightarrow>
          if length rest < Suc (length cs) then removeMatches m rest
          else c # removeMatches m cs)"

text \<open>\<open>s.match(re)\<close> for a \<open>g\<close>-flagged expression: the matched pieces, left to right.\<close>

fun matchAll :: "matcher \<Rightarrow> string \<Rightarrow> string list" where
  "matchAll m [] = []"
| "matchAll m (c # cs) =
     (case m (c # cs) of
        None \<Rightarrow> matchAll m cs
      | Some rest \<Rightarrow>
          if length rest < Suc (length cs)
          then take (Suc (length cs) - length rest) (c # cs) # matchAll m rest
          else matchAll m cs)"

text \<open>An optional literal: \<open>(?:lit)?\<close>, taken when present.\<close>

definition skipOptional :: "string \<Rightarrow> string \<Rightarrow> string" where
  "skipOptional lit s = (if prefix lit s then drop (length lit) s else s)"

text \<open>\<open>/```(?:typescript|javascript)?\n?/\<close>\<close>

definition fenceLangMatch :: matcher where
  "fenceLangMatch s =
     (if prefix [backtick, backtick, backtick] s
      then (let r = drop 3 s;
                r = (if prefix ''typescript'' r then drop 10 r
                     else if prefix ''javascript'' r then drop 10 r
                     else r)
            in Some (skipOptional [newline] r))
      else None)"

text \<open>\<open>/```\n?/\<close>\<close>

definition fenceMatch :: matcher where
  "fenceMatch s =
     (if prefix [backtick, backtick, backtick] s
      then Some (skipOptional [newline] (drop 3 s))
      else None)"

text \<open>\<open>.replace(/^\n+/, "")\<close>: without the \<open>m\<close> flag, \<open>^\<close> is the start of the text.\<close>

definition stripLeadingNewlines :: "string \<Rightarrow> string" where
  "stripLeadingNewlines s = dropWhile (\<lambda>c. c = newline) s"

text \<open>\<open>.replace(/\n+$/, "")\<close>: the first run of newlines that reaches the end of the text.\<close>

definition stripTrailingNewlines :: "string \<Rightarrow> string" where
  "stripTrailingNewlines s = rev (dropWhile (\<lambda>c. c = newline) (rev s))"

text \<open>
  \<open>/^\s*\/\/.*$/gm\<close> tried where \<open>^\<close> holds: white space (line breaks included), two
  slashes, then everything up to the next line terminator, where \<open>$\<close> holds.
\<close>

definition lineCommentMatch :: matcher where
  "lineCommentMatch s =
     (let r = dropWhile isSpace s
      in if prefix ''//'' r then Some (dropWhile (\<lambda>c. \<not> isLineTerminator c) (drop 2 r))
         else None)"

text \<open>
  \<open>.replace(/^\s*\/\/.*$/gm, "")\<close>.  The flag says whether \<open>^\<close> holds at the head: at the
  start of the text and behind a line terminator.  A match ends in a character that is
  no line terminator, so \<open>^\<close> does not hold behind it.
\<close>

fun stripLineComments :: "bool \<Rightarrow> string \<Rightarrow> string" where
  "stripLineComments atStart [] = []"
| "stripLineComments atStart (c # cs) =
     (case (if atStart then lineCommentMatch (c # cs) else None) of
        None \<Rightarrow> c # stripLineComments (isLineTerminator c) cs
      | Some rest \<Rightarrow>
          if length rest < Suc (length cs) then stripLineComments False rest
          else c # stripLineComments (isLineTerminator c) cs)"

text \<open>
  \<open>cleaned.match(/^[^{]*{[^}]*}$/)\<close>: the whole text is a brace-free prefix, an opening
  brace, a body without closing brace and one closing brace.  The result is the matched
  text \<open>functionMatch[0]\<close>.
\<close>

definition functionMatch :: "string \<Rightarrow> string option" where
  "functionMatch s =
     (let a = takeWhile (\<lambda>c. c \<noteq> CHR ''{'') s
      in case dropWhile (\<lambda>c. c \<noteq> CHR ''{'') s of
           [] \<Rightarrow> None
         | _ # b \<Rightarrow>
             (let body = takeWhile (\<lambda>c. c \<noteq> CHR ''}'') b
              in if dropWhile (\<lambda>c. c \<noteq> CHR ''}'') b = ''}''
                 then Some (a @ ''{'' @ body @ ''}'')
                 else None))"

text \<open>
  The lazy group \<open>(.*?)\<close> followed by a literal: the shortest run of characters other than
  line terminators behind which the literal stands.  The result is the captured run.
\<close>

fun lazyUntil :: "string \<Rightarrow> string \<Rightarrow> string option" where
  "lazyUntil lit [] = (if lit = [] then Some [] else None)"
| "lazyUntil lit (c # cs) =
     (if prefix lit (c # cs) then Some []
      else if isLineTerminator c then None
      else map_option (\<lambda>g. c # g) (lazyUntil lit cs))"

text \<open>\<open>/console\.log\((["'])(.*?)\1\)/\<close> tried at the head; the result is group 2.\<close>

definition consoleLogHere :: "string \<Rightarrow> string option" where
  "consoleLogHere s =
     (if prefix ''console.log('' s
      then (case drop 12 s of
              [] \<Rightarrow> None
            | q # r \<Rightarrow> if q = dquote \<or> q = squote then lazyUntil [q, CHR '')''] r else None)
      else None)"

text \<open>\<open>cleaned.match(/console\.log\((["'])(.*?)\1\)/)\<close>: group 2 of the leftmost match.\<close>

fun consoleLogMatch :: "string \<Rightarrow> string option" where
  "consoleLogMatch [] = None"
| "consoleLogMatch (c # cs) =
     (case consoleLogHere (c # cs) of
        Some g \<Rightarrow> Some g
      | None \<Rightarrow> consoleLogMatch cs)"

text \<open>\<open>/: \w+(?=[\s,)])/\<close>\<close>

definition typeAnnotationMatch :: matcher where
  "typeAnnotationMatch s =
     (if prefix '': '' s
      then (let w = takeWhile isWord (drop 2 s); r = dropWhile isWord (drop 2 s)
            in case r of
                 [] \<Rightarrow> None
               | c # _ \<Rightarrow>
                   if w \<noteq> [] \<and> (isSpace c \<or> c = CHR '','' \<or> c = CHR '')'') then Some r
                   else None)
      else None)"

text \<open>\<open>/<[^>]+>/\<close>\<close>

definition genericMatch :: matcher where
  "genericMatch s =
     (case s of
        [] \<Rightarrow> None
      | c # r \<Rightarrow>
          if c = CHR ''<'' \<and> takeWhile (\<lambda>c. c \<noteq> CHR ''>'') r \<noteq> []
          then (case dropWhile (\<lambda>c. c \<noteq> CHR ''>'') r of [] \<Rightarrow> None | _ # rest \<Rightarrow> Some rest)
          else None)"

text \<open>\<open>/: \w+\[\]/\<close>\<close>

definition arrayTypeMatch :: matcher where
  "arrayTypeMatch s =
     (if prefix '': '' s
      then (let w = takeWhile isWord (drop 2 s); r = dropWhile isWord (drop 2 s)
            in if w \<noteq> [] \<and> prefix ''[]'' r then Some (drop 2 r) else None)
      else None)"

text \<open>\<open>/interface \w+ {[^}]+}/\<close>\<close>

definition interfaceMatch :: matcher where
  "interfaceMatch s =
     (if prefix ''interface '' s
      then (let w = takeWhile isWord (drop 10 s); r = dropWhile isWord (drop 10 s)
            in if w \<noteq> [] \<and> prefix '' {'' r \<and> takeWhile (\<lambda>c. c \<noteq> CHR ''}'') (drop 2 r) \<noteq> []
               then (case dropWhile (\<lambda>c. c \<noteq> CHR ''}'') (drop 2 r) of
                       [] \<Rightarrow> None
                     | _ # rest \<Rightarrow> Some rest)
               else None)
      else None)"

text \<open>The four replacements applied when the current language is \<open>javascript\<close>.\<close>

definition stripTypes :: "string \<Rightarrow> string" where
  "stripTypes s =
     removeMatches interfaceMatch
       (removeMatches arrayTypeMatch
          (removeMatches genericMatch
             (removeMatches typeAnnotationMatch s)))"

section \<open>The response sanitizer\<close>

text \<open>
  \<open>CompletionProvider.cleanCompletion\<close>; the parameter is the field
  \<open>this.currentLanguage\<close> the method reads.
\<close>

definition stripMarkup :: "string \<Rightarrow> string" where
  "stripMarkup completion =
     stripLineComments True
       (stripTrailingNewlines
          (stripLeadingNewlines
             (removeMatches fenceMatch
                (removeMatches fenceLangMatch completion))))"

definition cleanCompletion :: "string \<Rightarrow> string \<Rightarrow> string" where
  "cleanCompletion currentLanguage completion =
     (let cleaned = stripMarkup completion;
          cleaned =
            (if includes_str cleaned ''function'' \<and> includes_str cleaned ''{''
             then (case functionMatch cleaned of Some m \<Rightarrow> m | None \<Rightarrow> cleaned)
             else cleaned)
      in case (if includes_str cleaned ''console.log('' then consoleLogMatch cleaned else None) of
           Some g \<Rightarrow> ''console.log('' @ [dquote] @ g @ [dquote] @ '')''
         | None \<Rightarrow>
             if currentLanguage = ''javascript'' then stripTypes cleaned else cleaned)"

section \<open>Documents, positions and the provider\<close>

text \<open>
  The editor's \<open>TextDocument\<close>: its language id, the path of its file, its end-of-line
  sequence and its lines (without line ends).  A \<open>Position\<close> is a line and a character,
  both non-negative.
\<close>

datatype EndOfLine = LF | CRLF

record position =
  line :: nat
  character :: nat

record document =
  languageId :: string
  fsPath :: string
  eol :: EndOfLine
  text_lines :: "string list"

text \<open>
  What the code can throw: the cancellation object of the HTTP client, recognised by
  \<open>axios.isCancel\<close>, or any other error; both carry a message.
\<close>

datatype error = Cancel string | Error string

fun isCancel :: "error \<Rightarrow> bool" where
  "isCancel (Cancel m) = True"
| "isCancel (Error m) = False"

fun message :: "error \<Rightarrow> string" where
  "message (Cancel m) = m"
| "message (Error m) = m"

text \<open>\<open>document.lineAt(n).text\<close>; the editor throws when the line does not exist.\<close>

definition lineAt :: "document \<Rightarrow> int \<Rightarrow> error + string" where
  "lineAt d n =
     (if 0 \<le> n \<and> n < int (length (text_lines d)) then Inr (text_lines d ! nat n)
      else Inl (Error ''Illegal value for `line`''))"

definition eolText :: "EndOfLine \<Rightarrow> string" where
  "eolText e = (case e of LF \<Rightarrow> [newline] | CRLF \<Rightarrow> [CHR 0x0D, newline])"

text \<open>
  \<open>document.getText(new Range(new Position(startLine, 0), position))\<close> for
  \<open>startLine \<le> position.line\<close>: the lines from \<open>startLine\<close> on with their line ends, and
  the cursor line up to the cursor.  The editor clamps the range to the document and
  does not throw: a character behind the end of the line is the end of the line, a line
  behind the last one is the end of the document.
\<close>

definition getText :: "document \<Rightarrow> nat \<Rightarrow> position \<Rightarrow> string" where
  "getText d startLine p =
     (let ls = text_lines d
      in if line p < length ls
         then concat (map (\<lambda>l. l @ eolText (eol d)) (take (line p - startLine) (drop startLine ls)))
              @ take (character p) (ls ! line p)
         else join (eolText (eol d)) (drop startLine ls))"

text \<open>The retained record of the last function declaration seen.\<close>

record fn =
  fn_name :: string
  fn_params :: "string list"
  fn_line :: int

text \<open>
  The fields of \<open>CompletionProvider\<close>.  The output channel is the list of lines written
  to it; a cancel token source and a timer handle are identified by the number of the
  invocation that created them.
\<close>

record provider =
  outputChannel :: "string list"
  lastRequest :: "nat option"
  debounceTimeout :: "nat option"
  currentLanguage :: string
  lastDefinedFunction :: "fn option"

definition DEBOUNCE_DELAY :: nat where
  "DEBOUNCE_DELAY = 300"

definition CONTEXT_BLOCK_SIZE :: nat where
  "CONTEXT_BLOCK_SIZE = 20"

definition new_provider :: provider where
  "new_provider =
     \<lparr>outputChannel = [], lastRequest = None, debounceTimeout = None,
      currentLanguage = ''javascript'', lastDefinedFunction = None\<rparr>"

section \<open>Context extraction\<close>

text \<open>
  The loop of \<open>getContextFromComments\<close>: \<open>lineNumber\<close> runs down from the cursor line
  while it is non-negative and above \<open>position.line - 5\<close>.
\<close>

function getContextLoop :: "document \<Rightarrow> position \<Rightarrow> int \<Rightarrow> string \<Rightarrow> error + string" where
  "getContextLoop d p lineNumber context =
     (if lineNumber \<ge> 0 \<and> lineNumber > int (line p) - 5
      then (case lineAt d lineNumber of
              Inl e \<Rightarrow> Inl e
            | Inr t \<Rightarrow>
                if startsWith (trim t) ''//''
                then getContextLoop d p (lineNumber - 1) (trim t @ [newline] @ context)
                else if context \<noteq> [] then Inr context
                else getContextLoop d p (lineNumber - 1) context)
      else Inr context)"
  by pat_completeness auto
termination
  by (relation "measure (\<lambda>(d, p, lineNumber, context). nat (lineNumber + 1))") auto

definition getContextFromComments :: "document \<Rightarrow> position \<Rightarrow> error + string" where
  "getContextFromComments d p = getContextLoop d p (int (line p)) []"

text \<open>\<open>toLowerCase\<close> on the modelled range: the letters of ASCII and of Latin-1.\<close>

definition toLowerChar :: "char \<Rightarrow> char" where
  "toLowerChar c =
     (let n = (of_char c :: nat)
      in if (65 \<le> n \<and> n \<le> 90) \<or> (192 \<le> n \<and> n \<le> 222 \<and> n \<noteq> 215) then char_of (n + 32) else c)"

definition toLowerCase :: "string \<Rightarrow> string" where
  "toLowerCase s = map toLowerChar s"

definition BASE_PROMPT_typescript :: string where
  "BASE_PROMPT_typescript = join [newline]
     [''You are a TypeScript code completion AI. Generate TypeScript code with:'',
      ''- Proper type annotations'',
      ''- Interface definitions when needed'',
      ''- Type-safe operations'',
      ''- Modern TypeScript patterns'']"

definition BASE_PROMPT_javascript :: string where
  "BASE_PROMPT_javascript = join [newline]
     [''You are a JavaScript code completion AI. Generate JavaScript code with:'',
      ''- ES6+ modern syntax'',
      ''- No TypeScript types'',
      ''- JavaScript-specific patterns'',
      ''- Runtime-friendly code'']"

definition SYSTEM_PROMPT :: string where
  "SYSTEM_PROMPT = join [newline]
     [''You are an expert TypeScript/JavaScript code completion AI. Your responses must ONLY contain pure code - no explanations, comments, or markdown.'',
      [],
      ''Context Understanding:'',
      ''- Parse and understand full project structure, dependencies, and patterns'',
      ''- Analyze current file'' @ [squote] @ ''s imports, types, and component hierarchy'',
      ''- Consider parent components, hooks usage, and state management'',
      ''- Detect coding style, naming conventions, and architecture patterns'',
      [],
      ''Code Generation Rules:'',
      ''1. Output only valid, compilable TypeScript/JavaScript'',
      ''2. Match project'' @ [squote] @ ''s type safety level and patterns'',
      ''3. Complete full logical blocks (if started)'',
      ''4. Follow established naming patterns'',
      ''5. Use imported types/components correctly'',
      ''6. Maintain consistent error handling'',
      ''7. Complete proper React/Next.js/Nest.js patterns'',
      ''8. Keep consistent state management approach'',
      ''9. Use correct hook patterns and lifecycle'',
      ''10. Follow existing project architecture'',
      [],
      ''Framework-Specific Rules:'',
      ''React/Next.js:'',
      ''- Correct hooks order and dependencies'',
      ''- Proper prop types and validation'',
      ''- Consistent component patterns'',
      ''- Proper data fetching patterns'',
      ''- Efficient state updates'',
      ''- Correct routing patterns'',
      [],
      ''Database/API:'',
      ''- Type-safe query building'',
      ''- Proper error handling'',
      ''- Consistent response formats'',
      ''- Security best practices'',
      ''- Proper transaction handling'',
      [],
      ''Current Focus: Complete only the immediate code need, no explanations'']"

text \<open>
  \<open>getLanguageContext\<close>: the language and its base prompt; the language is stored in
  \<open>this.currentLanguage\<close>.  The extension is the piece of the path behind its last dot.
\<close>

definition detectLanguage :: "document \<Rightarrow> string" where
  "detectLanguage d =
     (let fileExtension = toLowerCase (last (split_at (CHR ''.'') (fsPath d)))
      in if languageId d = ''typescript'' \<or> fileExtension = ''ts'' \<or> fileExtension = ''tsx''
         then ''typescript'' else ''javascript'')"

definition getLanguageContext :: "provider \<Rightarrow> document \<Rightarrow> provider \<times> string \<times> string" where
  "getLanguageContext s d =
     (let language = detectLanguage d
      in (s\<lparr>currentLanguage := language\<rparr>, language,
          if language = ''typescript'' then BASE_PROMPT_typescript else BASE_PROMPT_javascript))"

text \<open>\<open>(?:function|const|let|var)\<close> and \<open>(?:const|let|var)\<close>\<close>

definition declKeywordMatch :: matcher where
  "declKeywordMatch s =
     (if prefix ''function'' s then Some (drop 8 s)
      else if prefix ''const'' s then Some (drop 5 s)
      else if prefix ''let'' s then Some (drop 3 s)
      else if prefix ''var'' s then Some (drop 3 s)
      else None)"

definition varKeywordMatch :: matcher where
  "varKeywordMatch s =
     (if prefix ''const'' s then Some (drop 5 s)
      else if prefix ''let'' s then Some (drop 3 s)
      else if prefix ''var'' s then Some (drop 3 s)
      else None)"

text \<open>\<open>\s+\<close> and \<open>(\w+)\<close>; the second returns the word and the rest.\<close>

definition spaces1 :: matcher where
  "spaces1 s = (if takeWhile isSpace s = [] then None else Some (dropWhile isSpace s))"

definition word1 :: "string \<Rightarrow> (string \<times> string) option" where
  "word1 s = (if takeWhile isWord s = [] then None else Some (takeWhile isWord s, dropWhile isWord s))"

text \<open>\<open>\(([^)]*)\)\<close>: the text between the parentheses and the rest.\<close>

definition parenList :: "string \<Rightarrow> (string \<times> string) option" where
  "parenList s =
     (case s of
        [] \<Rightarrow> None
      | c # r \<Rightarrow>
          if c = CHR ''(''
          then (case dropWhile (\<lambda>c. c \<noteq> CHR '')'') r of
                  [] \<Rightarrow> None
                | _ # rest \<Rightarrow> Some (takeWhile (\<lambda>c. c \<noteq> CHR '')'') r, rest))
          else None)"

text \<open>
  \<open>(?:async\s*)?\(([^)]*)\)\<close>.  When \<open>async\<close> is taken and no parenthesis follows, the
  expression retries without it and fails on the letter \<open>a\<close>.
\<close>

definition asyncParenList :: "string \<Rightarrow> (string \<times> string) option" where
  "asyncParenList s =
     (if prefix ''async'' s then parenList (dropWhile isSpace (drop 5 s)) else parenList s)"

text \<open>
  \<open>/(?:function|const|let|var)\s+(\w+)\s*(?:=\s*(?:async\s*)?\(([^)]*)\)|(?:async\s*)?\(([^)]*)\))/\<close>:
  the first alternative begins with \<open>=\<close>, the second cannot.
\<close>

definition functionDeclMatch :: matcher where
  "functionDeclMatch s =
     Option.bind (declKeywordMatch s) (\<lambda>r.
     Option.bind (spaces1 r) (\<lambda>r.
     Option.bind (word1 r) (\<lambda>(w, r).
       (let r = dropWhile isSpace r
        in map_option snd
             (if prefix ''='' r then asyncParenList (dropWhile isSpace (drop 1 r))
              else asyncParenList r)))))"

text \<open>
  \<open>/(\w+)\s*(?:=\s*)?(?:async\s*)?\(([^)]*)\)/\<close> tried at the head: groups 1 and 2.  A
  shorter word leaves a word character in front of \<open>\s*(?:=\s*)?\<close>, so it can only go on
  with \<open>async\<close>, whose end is then the end of the longest word: the longest word
  succeeds wherever a shorter one does, and is tried first.
\<close>

definition nameParamsHere :: "string \<Rightarrow> (string \<times> string) option" where
  "nameParamsHere s =
     Option.bind (word1 s) (\<lambda>(w, r).
       (let r = dropWhile isSpace r;
            r = (if prefix ''='' r then dropWhile isSpace (drop 1 r) else r)
        in map_option (\<lambda>(ps, rest). (w, ps)) (asyncParenList r)))"

text \<open>\<open>lastFn.match(...)\<close> without the \<open>g\<close> flag: the leftmost match.\<close>

fun nameParamsMatch :: "string \<Rightarrow> (string \<times> string) option" where
  "nameParamsMatch [] = None"
| "nameParamsMatch (c # cs) =
     (case nameParamsHere (c # cs) of
        Some r \<Rightarrow> Some r
      | None \<Rightarrow> nameParamsMatch cs)"

text \<open>\<open>/(?:function|const|let|var)\s+(\w+)/\<close>\<close>

definition functionNameMatch :: matcher where
  "functionNameMatch s =
     Option.bind (declKeywordMatch s) (\<lambda>r.
     Option.bind (spaces1 r) (\<lambda>r.
       map_option snd (word1 r)))"

text \<open>\<open>/(?:const|let|var)\s+(\w+)\s*=/\<close>\<close>

definition variableMatch :: matcher where
  "variableMatch s =
     Option.bind (varKeywordMatch s) (\<lambda>r.
     Option.bind (spaces1 r) (\<lambda>r.
     Option.bind (word1 r) (\<lambda>(w, r).
       (let r = dropWhile isSpace r
        in if prefix ''='' r then Some (drop 1 r) else None))))"

text \<open>
  \<open>f.split(/\s+/)[1]\<close> for a text that begins with a keyword: the piece between the
  first and the second run of white space.
\<close>

definition secondPiece :: "string \<Rightarrow> string" where
  "secondPiece f =
     takeWhile (\<lambda>c. \<not> isSpace c) (dropWhile isSpace (dropWhile (\<lambda>c. \<not> isSpace c) f))"

text \<open>
  The declarations with a parameter list in the window of \<open>CONTEXT_BLOCK_SIZE\<close> lines
  that ends at the cursor.  \<open>Math.max(0, position.line - CONTEXT_BLOCK_SIZE)\<close> is the
  truncating subtraction of natural numbers.
\<close>

definition contextWindow :: "document \<Rightarrow> position \<Rightarrow> string" where
  "contextWindow d p = getText d (line p - CONTEXT_BLOCK_SIZE) p"

definition windowDeclarations :: "document \<Rightarrow> position \<Rightarrow> string list" where
  "windowDeclarations d p = matchAll functionDeclMatch (contextWindow d p)"

record analysis =
  functionNames :: "string list"
  variables :: "string list"
  codeIntent :: string
  recentlyDefinedFunction :: bool

text \<open>
  \<open>analyzeCodeBlock\<close>.  \<open>position.line - 1\<close> is an integer and is \<open>-1\<close> on the first
  line.  The retained record is written before the comments are read, so the new
  provider is returned also when reading them throws.
\<close>

definition analyzeCodeBlock :: "provider \<Rightarrow> document \<Rightarrow> position \<Rightarrow> provider \<times> (error + analysis)" where
  "analyzeCodeBlock s d p =
     (let contextText = contextWindow d p;
          functionDeclarations = windowDeclarations d p;
          s' = (if length functionDeclarations > 0
                then (case nameParamsMatch (last functionDeclarations) of
                        Some (n, ps) \<Rightarrow>
                          s\<lparr>lastDefinedFunction :=
                              Some \<lparr>fn_name = n,
                                    fn_params = map trim (split_at (CHR '','') ps),
                                    fn_line = int (line p) - 1\<rparr>\<rparr>
                      | None \<Rightarrow> s)
                else s);
          recently =
            (case lastDefinedFunction s' of
               Some f \<Rightarrow> fn_line f = int (line p) - 1
             | None \<Rightarrow> False);
          names = map secondPiece (matchAll functionNameMatch contextText);
          vars = map secondPiece (matchAll variableMatch contextText)
      in (s',
          case getContextFromComments d p of
            Inl e \<Rightarrow> Inl e
          | Inr comments \<Rightarrow>
              Inr \<lparr>functionNames = names, variables = vars,
                   codeIntent = (if comments \<noteq> [] then comments else ''Continue the logical flow''),
                   recentlyDefinedFunction = recently\<rparr>))"

definition isInsideComment :: "document \<Rightarrow> position \<Rightarrow> error + bool" where
  "isInsideComment d p =
     (case lineAt d (int (line p)) of
        Inl e \<Rightarrow> Inl e
      | Inr l \<Rightarrow> Inr (startsWith (trimLeft (substring0 l (character p))) ''//''))"

section \<open>Prompt construction\<close>

definition exampleParam :: "string \<Rightarrow> string" where
  "exampleParam param =
     (if includes_str param ''number'' then ''42''
      else if includes_str param ''string'' then [dquote] @ ''example'' @ [dquote]
      else if includes_str param ''array'' \<or> includes_str param ''[]'' then ''[1, 2, 3]''
      else if includes_str param ''boolean'' then ''true''
      else ''undefined'')"

definition generateFunctionUsageExample :: "fn \<Rightarrow> string" where
  "generateFunctionUsageExample func =
     (let exampleParams = map exampleParam (fn_params func)
      in join [newline]
           [''// Example usage:'',
            fn_name func @ ''('' @ join '', '' exampleParams @ '');'',
            [],
            ''// Test cases:'',
            ''console.log('' @ fn_name func @ ''('' @ join '', '' exampleParams @ ''));''])"

definition usagePrompt :: "fn \<Rightarrow> string" where
  "usagePrompt f = join [newline]
     [''Function '' @ fn_name f @ '' was just defined.'',
      ''Generate example usage and test cases.'',
      generateFunctionUsageExample f]"

definition generalPrompt :: "document \<Rightarrow> position \<Rightarrow> string \<Rightarrow> string \<Rightarrow> analysis \<Rightarrow> string" where
  "generalPrompt d p currentLine language a = join [newline]
     [''File type: '' @ language,
      ''Code Context:'',
      ''- Defined functions: '' @ join '', '' (functionNames a),
      ''- Available variables: '' @ join '', '' (variables a),
      ''- Current intent: '' @ codeIntent a,
      [],
      ''Previous code context:'',
      getText d (line p - 5) p,
      [],
      ''Current line:'',
      currentLine,
      [],
      ''Instructions:'',
      ''1. Continue the logical flow of the existing code'',
      ''2. If a function was just defined, suggest its usage'',
      ''3. Keep the context of the previously defined functions'',
      ''4. Don'' @ [squote] @ ''t introduce unrelated concepts'',
      ''5. Complete or use existing functions if appropriate'',
      [],
      ''Complete this code:'']"

text \<open>
  \<open>buildCompletionPrompt\<close>; the parameter \<open>commentContext\<close> of the source is not read by
  it.  The analysis runs first, so the retained record is written on every path.
\<close>

definition buildCompletionPrompt ::
  "provider \<Rightarrow> document \<Rightarrow> position \<Rightarrow> string \<Rightarrow> string \<Rightarrow> string \<Rightarrow> provider \<times> (error + string)" where
  "buildCompletionPrompt s d p currentLine commentContext language =
     (case analyzeCodeBlock s d p of
        (s', Inl e) \<Rightarrow> (s', Inl e)
      | (s', Inr a) \<Rightarrow>
          (s',
           case isInsideComment d p of
             Inl e \<Rightarrow> Inl e
           | Inr inside \<Rightarrow>
               if inside then Inr (''Complete this documentation comment:'' @ [newline] @ currentLine)
               else (case (if recentlyDefinedFunction a then lastDefinedFunction s' else None) of
                       Some f \<Rightarrow> Inr (usagePrompt f)
                     | None \<Rightarrow> Inr (generalPrompt d p currentLine language a))))"

definition systemPromptFor :: "string \<Rightarrow> string" where
  "systemPromptFor basePrompt = join [newline]
     [basePrompt,
      SYSTEM_PROMPT,
      ''Additional Rules:'',
      ''1. Always maintain context with previously defined functions'',
      ''2. If a function was just defined, suggest its usage'',
      ''3. Don'' @ [squote] @ ''t introduce unrelated concepts'',
      ''4. Focus on completing or using existing code'',
      ''5. Keep the logical flow of the current code block'']"

section \<open>The completion pipeline\<close>

text \<open>
  An \<open>InlineCompletionItem\<close>: the text to insert and the range it replaces, from its
  start position to its end position.
\<close>

record InlineCompletionItem =
  insertText :: string
  item_range :: "position \<times> position"

text \<open>
  What the HTTP call can deliver.  \<open>response.data.choices[0]?.message?.content\<close> reads a
  list of choices; a payload without such a list makes the read throw a type error with
  some message.  The content of a choice is absent (or another falsy value), a string,
  or some other truthy value.
\<close>

datatype js_value = Undefined | Str string | Truthy

datatype response_data = NoChoices string | Choices "js_value list"

datatype axios_result = Fulfilled response_data | Failed error

text \<open>What the pipeline keeps across the \<open>await\<close> of the HTTP call.\<close>

record pending_request =
  rq_position :: position
  rq_currentLineUptoCursor :: string
  rq_commentContext :: string
  rq_isEmptyLine :: bool
  rq_systemPrompt :: string
  rq_completionPrompt :: string

text \<open>The pipeline has settled, with an error thrown or a list returned, or it awaits the call.\<close>

datatype progress = Settled "error + InlineCompletionItem list" | Awaiting pending_request

text \<open>\<open>.replace(/\r\n/g, "\n")\<close>\<close>

fun crlfToLf :: "string \<Rightarrow> string" where
  "crlfToLf (c # c' # cs) =
     (if c = CHR 0x0D \<and> c' = CHR 0x0A then CHR 0x0A # crlfToLf cs else c # crlfToLf (c' # cs))"
| "crlfToLf cs = cs"

text \<open>The special case of a line that contains \<open>console.log(\<close>.\<close>

definition closeConsoleLog :: "string \<Rightarrow> string \<Rightarrow> string" where
  "closeConsoleLog currentLineUptoCursor completion =
     (if includes_str currentLineUptoCursor ''console.log(''
      then (let c1 = (if \<not> endsWith completion '')'' then completion @ [dquote] @ '')''
                      else completion)
            in if \<not> includes_str c1 [dquote] \<and> \<not> includes_str c1 [squote] then dquote # c1
               else c1)
      else completion)"

definition quoted :: "string \<Rightarrow> string" where
  "quoted s = [dquote] @ s @ [dquote]"

text \<open>
  The text of the model on its way to a suggestion: \<open>cleanCompletion\<close>, the line ends
  normalised, the leading white space removed (\<open>.replace(/^\s+/g, "")\<close> has no \<open>m\<close> flag),
  and the \<open>console.log(\<close> case.
\<close>

definition sanitizeCompletion :: "string \<Rightarrow> string \<Rightarrow> string \<Rightarrow> string" where
  "sanitizeCompletion language currentLineUptoCursor raw =
     closeConsoleLog currentLineUptoCursor (trimLeft (crlfToLf (cleanCompletion language raw)))"

text \<open>
  The \<open>catch\<close> clause: a cancellation returns the empty list silently, any other error
  is written to the output channel and returns the empty list.
\<close>

definition catchError :: "provider \<Rightarrow> error \<Rightarrow> provider \<times> InlineCompletionItem list" where
  "catchError s e =
     (if isCancel e then (s, [])
      else (s\<lparr>outputChannel := outputChannel s @ [''Error: '' @ message e]\<rparr>, []))"

text \<open>
  The body of the \<open>try\<close> block behind the \<open>await\<close> of the HTTP call, with the response
  payload.
\<close>

definition handleResponse ::
  "provider \<Rightarrow> pending_request \<Rightarrow> response_data \<Rightarrow> provider \<times> (error + InlineCompletionItem list)" where
  "handleResponse s rq data =
     (case data of
        NoChoices m \<Rightarrow> (s, Inl (Error m))
      | Choices cs \<Rightarrow>
          (case (case cs of [] \<Rightarrow> Undefined | c # _ \<Rightarrow> c) of
             Undefined \<Rightarrow> (s, Inr [])
           | Truthy \<Rightarrow> (s, Inl (Error ''completion.replace is not a function''))
           | Str raw \<Rightarrow>
               if raw = [] then (s, Inr [])
               else
                 (let position = rq_position rq;
                      currentLineUptoCursor = rq_currentLineUptoCursor rq;
                      completion = sanitizeCompletion (currentLanguage s) currentLineUptoCursor raw
                  in if rq_isEmptyLine rq \<and> rq_commentContext rq \<noteq> []
                     then (s, Inr [\<lparr>insertText = completion, item_range = (position, position)\<rparr>])
                     else
                       (let s1 = s\<lparr>outputChannel := outputChannel s @
                                   [''Current line: '' @ quoted currentLineUptoCursor,
                                    ''Completion: '' @ quoted completion]\<rparr>
                        in if completion = currentLineUptoCursor \<or> trim completion = []
                           then (s1, Inr [])
                           else
                             (let completion' =
                                    (if \<not> startsWith completion (trimLeft currentLineUptoCursor)
                                     then currentLineUptoCursor @ completion
                                     else completion);
                                  s2 = s1\<lparr>outputChannel := outputChannel s1 @
                                         [''Comment context: '' @ quoted (rq_commentContext rq),
                                          ''Current line: '' @ quoted currentLineUptoCursor,
                                          ''Completion: '' @ quoted completion']\<rparr>
                              in (s2, Inr [\<lparr>insertText = completion',
                                            item_range = (\<lparr>line = line position, character = 0\<rparr>,
                                                          position)\<rparr>]))))))"

text \<open>
  The debounced function from its start to the HTTP call: the statements in front of
  the \<open>try\<close> block, whose errors are thrown to the caller, and the \<open>try\<close> block up to
  \<open>axios.post\<close>, whose errors are caught.  \<open>k\<close> names the cancel token source the call
  creates.  The brace counts of the source are computed and never read; they are left
  out.
\<close>

definition completionUntilRequest ::
  "provider \<Rightarrow> nat \<Rightarrow> document \<Rightarrow> position \<Rightarrow> provider \<times> progress" where
  "completionUntilRequest s k d p =
     (case lineAt d (int (line p)) of
        Inl e \<Rightarrow> (s, Settled (Inl e))
      | Inr currentLine \<Rightarrow>
          (let currentLineUptoCursor = substring0 currentLine (character p)
           in case getContextFromComments d p of
                Inl e \<Rightarrow> (s, Settled (Inl e))
              | Inr commentContext \<Rightarrow>
                  (let isEmptyLine = (trim currentLine = [])
                   in if commentContext = [] \<and> \<not> isEmptyLine \<and> length (trim currentLineUptoCursor) < 2
                      then (s, Settled (Inr []))
                      else
                        (case getLanguageContext s d of
                           (s1, language, basePrompt) \<Rightarrow>
                             (case buildCompletionPrompt s1 d p currentLineUptoCursor commentContext language of
                                (s2, Inl e) \<Rightarrow>
                                  (case catchError s2 e of (s3, items) \<Rightarrow> (s3, Settled (Inr items)))
                              | (s2, Inr completionPrompt) \<Rightarrow>
                                  (s2\<lparr>lastRequest := Some k\<rparr>,
                                   Awaiting
                                     \<lparr>rq_position = p,
                                      rq_currentLineUptoCursor = currentLineUptoCursor,
                                      rq_commentContext = commentContext,
                                      rq_isEmptyLine = isEmptyLine,
                                      rq_systemPrompt = systemPromptFor basePrompt,
                                      rq_completionPrompt = completionPrompt\<rparr>))))))"

text \<open>The debounced function from the end of the HTTP call on.\<close>

definition completionAfterResponse ::
  "provider \<Rightarrow> pending_request \<Rightarrow> axios_result \<Rightarrow> provider \<times> InlineCompletionItem list" where
  "completionAfterResponse s rq res =
     (case res of
        Failed e \<Rightarrow> catchError s e
      | Fulfilled data \<Rightarrow>
          (case handleResponse s rq data of
             (s', Inl e) \<Rightarrow> catchError s' e
           | (s', Inr items) \<Rightarrow> (s', items)))"

text \<open>
  The debounced function as a whole, for an invocation whose timer has fired and which
  no later trigger interrupts: \<open>res\<close> is what the HTTP call delivers if it is made.
\<close>

definition debouncedCompletion ::
  "provider \<Rightarrow> nat \<Rightarrow> document \<Rightarrow> position \<Rightarrow> axios_result \<Rightarrow> provider \<times> (error + InlineCompletionItem list)" where
  "debouncedCompletion s k d p res =
     (case completionUntilRequest s k d p of
        (s', Settled r) \<Rightarrow> (s', r)
      | (s', Awaiting rq) \<Rightarrow>
          (case completionAfterResponse s' rq res of (s'', items) \<Rightarrow> (s'', Inr items)))"

section \<open>The request scheduler\<close>

text \<open>
  \<open>provideInlineCompletionItems\<close> wraps the debounced function anew on every call and
  returns a promise that only the timer callback resolves.  The run-time system around
  the provider is modelled by its clock, the timers that are armed (handle, due time and
  the arguments captured by the callback), the HTTP calls under way, the promise handed
  out to each invocation, and the invocations whose debounced function has begun.
  Invocations are numbered in the order of their calls.
\<close>

datatype promise = Pending | Resolved "InlineCompletionItem list" | Rejected error

record runtime =
  prov :: provider
  clock :: nat
  timers :: "(nat \<times> nat \<times> document \<times> position) list"
  inflight :: "(nat \<times> pending_request) list"
  promises :: "promise list"
  started :: "nat list"

definition new_runtime :: runtime where
  "new_runtime =
     \<lparr>prov = new_provider, clock = 0, timers = [], inflight = [], promises = [], started = []\<rparr>"

text \<open>
  \<open>clearTimeout(this.debounceTimeout)\<close>: the timer with that handle is disarmed; a
  handle whose timer has fired disarms nothing.
\<close>

definition clearTimeout :: "runtime \<Rightarrow> runtime" where
  "clearTimeout rt =
     (case debounceTimeout (prov rt) of
        None \<Rightarrow> rt
      | Some h \<Rightarrow> rt\<lparr>timers := filter (\<lambda>t. fst t \<noteq> h) (timers rt)\<rparr>)"

text \<open>
  \<open>this.lastRequest.cancel("New request initiated")\<close>: a call under way is rejected with
  the cancellation, which the pipeline catches; a call that has ended is not affected.
\<close>

definition cancelLastRequest :: "runtime \<Rightarrow> runtime" where
  "cancelLastRequest rt =
     (case lastRequest (prov rt) of
        None \<Rightarrow> rt
      | Some r \<Rightarrow>
          (case map_of (inflight rt) r of
             None \<Rightarrow> rt
           | Some rq \<Rightarrow>
               (case completionAfterResponse (prov rt) rq (Failed (Cancel ''New request initiated'')) of
                  (s', items) \<Rightarrow>
                    rt\<lparr>prov := s',
                       inflight := filter (\<lambda>x. fst x \<noteq> r) (inflight rt),
                       promises := (promises rt)[r := Resolved items]\<rparr>)))"

text \<open>A call of \<open>provideInlineCompletionItems(document, position, ...)\<close>.\<close>

definition trigger :: "runtime \<Rightarrow> document \<Rightarrow> position \<Rightarrow> runtime" where
  "trigger rt d p =
     (let k = length (promises rt);
          rt' = cancelLastRequest (clearTimeout rt)
      in rt'\<lparr>prov := (prov rt')\<lparr>debounceTimeout := Some k\<rparr>,
             timers := timers rt' @ [(k, clock rt' + DEBOUNCE_DELAY, d, p)],
             promises := promises rt' @ [Pending]\<rparr>)"

text \<open>How the promise of an invocation settles when the debounced function throws or returns.\<close>

definition settle :: "error + InlineCompletionItem list \<Rightarrow> promise" where
  "settle r = (case r of Inl e \<Rightarrow> Rejected e | Inr items \<Rightarrow> Resolved items)"

text \<open>The callback of a timer: the debounced function runs up to its HTTP call.\<close>

definition fire :: "runtime \<Rightarrow> nat \<times> nat \<times> document \<times> position \<Rightarrow> runtime" where
  "fire rt t =
     (case t of
        (k, due, d, p) \<Rightarrow>
          (case completionUntilRequest (prov rt) k d p of
             (s', Settled r) \<Rightarrow>
               rt\<lparr>prov := s', started := started rt @ [k],
                  promises := (promises rt)[k := settle r]\<rparr>
           | (s', Awaiting rq) \<Rightarrow>
               rt\<lparr>prov := s', started := started rt @ [k], inflight := inflight rt @ [(k, rq)]\<rparr>))"

text \<open>Time passes: the timers that become due fire, in the order they were armed.\<close>

definition elapse :: "runtime \<Rightarrow> nat \<Rightarrow> runtime" where
  "elapse rt n =
     (let now = clock rt + n
      in foldl fire
           (rt\<lparr>clock := now, timers := filter (\<lambda>t. \<not> fst (snd t) \<le> now) (timers rt)\<rparr>)
           (filter (\<lambda>t. fst (snd t) \<le> now) (timers rt)))"

text \<open>The HTTP call of invocation \<open>k\<close> ends; nothing happens when no such call is under way.\<close>

definition respond :: "runtime \<Rightarrow> nat \<Rightarrow> axios_result \<Rightarrow> runtime" where
  "respond rt k res =
     (case map_of (inflight rt) k of
        None \<Rightarrow> rt
      | Some rq \<Rightarrow>
          (case completionAfterResponse (prov rt) rq res of
             (s', items) \<Rightarrow>
               rt\<lparr>prov := s',
                  inflight := filter (\<lambda>x. fst x \<noteq> k) (inflight rt),
                  promises := (promises rt)[k := Resolved items]\<rparr>))"

datatype event = Trigger document position | Elapse nat | Respond nat axios_result

fun step :: "runtime \<Rightarrow> event \<Rightarrow> runtime" where
  "step rt (Trigger d p) = trigger rt d p"
| "step rt (Elapse n) = elapse rt n"
| "step rt (Respond k res) = respond rt k res"

definition run :: "runtime \<Rightarrow> event list \<Rightarrow> runtime" where
  "run rt evs = foldl step rt evs"

section \<open>Example documents\<close>

definition comment_document :: document where
  "comment_document =
     \<lparr>languageId = ''javascript'', fsPath = ''/src/sum.js'', eol = LF,
      text_lines = [''// add two numbers'', []]\<rparr>"

definition add_document :: document where
  "add_document =
     \<lparr>languageId = ''typescript'', fsPath = ''/src/add.ts'', eol = LF,
      text_lines = [''function add(a: number, b: number)'', []]\<rparr>"

definition add_body_document :: document where
  "add_body_document =
     \<lparr>languageId = ''typescript'', fsPath = ''/src/add.ts'', eol = LF,
      text_lines = [''function add(a: number, b: number) {'',
                    ''  const sum = (a + b);'',
                    ''  return sum;'',
                    ''}'',
                    []]\<rparr>"

definition console_document :: document where
  "console_document =
     \<lparr>languageId = ''javascript'', fsPath = ''/src/log.js'', eol = LF,
      text_lines = [''console.log('' @ [dquote]]\<rparr>"

definition indented_document :: document where
  "indented_document =
     \<lparr>languageId = ''javascript'', fsPath = ''/src/foo.js'', eol = LF,
      text_lines = [''  fo'']\<rparr>"

definition short_document :: document where
  "short_document =
     \<lparr>languageId = ''javascript'', fsPath = ''/src/x.js'', eol = LF,
      text_lines = [''x'']\<rparr>"

section \<open>Example scenarios\<close>

text \<open>Two triggers 100 time units apart, then a quiet period.\<close>

definition two_triggers :: "event list" where
  "two_triggers =
     [Trigger short_document \<lparr>line = 0, character = 1\<rparr>, Elapse 100,
      Trigger short_document \<lparr>line = 0, character = 1\<rparr>, Elapse 300]"

section \<open>Notions for the scheduler\<close>

text \<open>
  A burst of triggers: a first call, and further calls each a given time after the one
  before it.
\<close>

definition rapid_triggers ::
  "document \<times> position \<Rightarrow> (nat \<times> document \<times> position) list \<Rightarrow> event list" where
  "rapid_triggers first later =
     Trigger (fst first) (snd first) # concat (map (\<lambda>(gap, d, p). [Elapse gap, Trigger d p]) later)"

definition last_trigger ::
  "document \<times> position \<Rightarrow> (nat \<times> document \<times> position) list \<Rightarrow> document \<times> position" where
  "last_trigger first later = (if later = [] then first else snd (last later))"

text \<open>
  Single flight: at most one timer is armed, and it is the one the provider holds the
  handle of; while it is armed no HTTP call is under way; a call under way is the one
  the provider holds the cancel token of.
\<close>

definition single_flight :: "runtime \<Rightarrow> bool" where
  "single_flight rt \<longleftrightarrow>
     (case timers rt of
        [] \<Rightarrow> (\<forall>x\<in>set (inflight rt). lastRequest (prov rt) = Some (fst x))
      | [t] \<Rightarrow> debounceTimeout (prov rt) = Some (fst t) \<and> inflight rt = []
      | _ \<Rightarrow> False)"

text \<open>
  An invocation is retired when its promise exists, its timer is not armed and no HTTP
  call of it is under way.
\<close>

definition retired :: "nat \<Rightarrow> runtime \<Rightarrow> bool" where
  "retired j rt \<longleftrightarrow>
     j < length (promises rt) \<and> j \<notin> fst ` set (timers rt) \<and> j \<notin> fst ` set (inflight rt)"

section \<open>Facts about the pipeline\<close>

declare getContextLoop.simps [simp del]

lemma Ball_dropWhile: "(\<forall>x\<in>set (dropWhile P l). P x) \<longleftrightarrow> (\<forall>x\<in>set l. P x)"
  by (induction l) auto

lemma trim_Nil_iff: "trim l = [] \<longleftrightarrow> (\<forall>c\<in>set l. isSpace c)"
  by (simp add: trim_def trimRight_def trimLeft_def dropWhile_eq_Nil_conv Ball_dropWhile)

lemma lineAt_valid: "n < length (text_lines d) \<Longrightarrow> lineAt d (int n) = Inr (text_lines d ! n)"
  by (simp add: lineAt_def)

text \<open>On a position inside the document the comment scan reads existing lines only.\<close>

lemma getContextLoop_Inr:
  "line p < length (text_lines d) \<Longrightarrow> n \<le> int (line p) \<Longrightarrow> \<exists>c. getContextLoop d p n ctx = Inr c"
proof (induction d p n ctx rule: getContextLoop.induct)
  case (1 d p lineNumber ctx)
  show ?case
  proof (cases "lineNumber \<ge> 0 \<and> lineNumber > int (line p) - 5")
    case False
    show ?thesis by (subst getContextLoop.simps) (use False in auto)
  next
    case inside: True
    with "1.prems" obtain t where t: "lineAt d lineNumber = Inr t"
      by (auto simp: lineAt_def)
    show ?thesis
    proof (cases "startsWith (trim t) ''//''")
      case True
      from "1.IH"(1)[OF inside t True] "1.prems"
      show ?thesis
        by (subst getContextLoop.simps) (use inside t True in simp)
    next
      case False
      show ?thesis
      proof (cases "ctx = []")
        case True
        from "1.IH"(2)[OF inside t False] "1.prems" True
        show ?thesis
          by (subst getContextLoop.simps) (use inside t False in simp)
      next
        case c: False
        show ?thesis
          by (subst getContextLoop.simps) (use inside t False c in simp)
      qed
    qed
  qed
qed

lemma getContextFromComments_Inr:
  "line p < length (text_lines d) \<Longrightarrow> \<exists>c. getContextFromComments d p = Inr c"
  unfolding getContextFromComments_def by (rule getContextLoop_Inr) simp_all

text \<open>The analysis writes the retained record and no other field of the provider.\<close>

lemma analyzeCodeBlock_fst:
  "fst (analyzeCodeBlock s d p) =
     s\<lparr>lastDefinedFunction :=
         (if windowDeclarations d p = [] then lastDefinedFunction s
          else (case nameParamsMatch (last (windowDeclarations d p)) of
                  None \<Rightarrow> lastDefinedFunction s
                | Some (n, ps) \<Rightarrow>
                    Some \<lparr>fn_name = n, fn_params = map trim (split_at (CHR '','') ps),
                          fn_line = int (line p) - 1\<rparr>))\<rparr>"
  by (simp add: analyzeCodeBlock_def Let_def split: option.splits)

lemma analyzeCodeBlock_snd:
  "getContextFromComments d p = Inr c \<Longrightarrow> \<exists>a. snd (analyzeCodeBlock s d p) = Inr a"
  by (simp add: analyzeCodeBlock_def Let_def)

lemma buildCompletionPrompt_Inr:
  assumes "line p < length (text_lines d)"
  shows "\<exists>f pr. buildCompletionPrompt s d p cur cc lang = (s\<lparr>lastDefinedFunction := f\<rparr>, Inr pr)"
proof -
  from getContextFromComments_Inr[OF assms] obtain c where "getContextFromComments d p = Inr c" ..
  from analyzeCodeBlock_snd[OF this] obtain a where a: "snd (analyzeCodeBlock s d p) = Inr a" ..
  obtain f where f: "fst (analyzeCodeBlock s d p) = s\<lparr>lastDefinedFunction := f\<rparr>"
    using analyzeCodeBlock_fst[of s d p] by blast
  have an: "analyzeCodeBlock s d p = (s\<lparr>lastDefinedFunction := f\<rparr>, Inr a)"
    using a f by (simp add: prod_eq_iff)
  show ?thesis
    by (auto simp add: buildCompletionPrompt_def an isInsideComment_def lineAt_valid[OF assms]
             split: option.splits)
qed

text \<open>
  On a position inside the document the debounced function either returns the empty
  list at once, or reaches its HTTP call with the state and the data shown.
\<close>

lemma completionUntilRequest_cases:
  assumes "line p < length (text_lines d)"
  obtains (early) "completionUntilRequest s k d p = (s, Settled (Inr []))"
            "length (trim (substring0 (text_lines d ! line p) (character p))) < 2"
        | (request) cc f sys pr where
            "getContextFromComments d p = Inr cc"
            "completionUntilRequest s k d p =
               (s\<lparr>lastRequest := Some k, currentLanguage := detectLanguage d, lastDefinedFunction := f\<rparr>,
                Awaiting \<lparr>rq_position = p,
                          rq_currentLineUptoCursor = substring0 (text_lines d ! line p) (character p),
                          rq_commentContext = cc,
                          rq_isEmptyLine = (trim (text_lines d ! line p) = []),
                          rq_systemPrompt = sys,
                          rq_completionPrompt = pr\<rparr>)"
proof -
  from getContextFromComments_Inr[OF assms] obtain cc where cc: "getContextFromComments d p = Inr cc" ..
  show thesis
  proof (cases "cc = [] \<and> trim (text_lines d ! line p) \<noteq> []
                \<and> length (trim (substring0 (text_lines d ! line p) (character p))) < 2")
    case True
    then have "completionUntilRequest s k d p = (s, Settled (Inr []))"
      by (simp add: completionUntilRequest_def lineAt_valid[OF assms] cc)
    then show thesis using True by (intro early) simp_all
  next
    case False
    obtain f pr where b: "buildCompletionPrompt (s\<lparr>currentLanguage := detectLanguage d\<rparr>) d p
          (substring0 (text_lines d ! line p) (character p)) cc (detectLanguage d)
          = (s\<lparr>currentLanguage := detectLanguage d\<rparr>\<lparr>lastDefinedFunction := f\<rparr>, Inr pr)"
      using buildCompletionPrompt_Inr[OF assms] by blast
    have "completionUntilRequest s k d p =
               (s\<lparr>lastRequest := Some k, currentLanguage := detectLanguage d, lastDefinedFunction := f\<rparr>,
                Awaiting \<lparr>rq_position = p,
                          rq_currentLineUptoCursor = substring0 (text_lines d ! line p) (character p),
                          rq_commentContext = cc,
                          rq_isEmptyLine = (trim (text_lines d ! line p) = []),
                          rq_systemPrompt =
                            systemPromptFor (if detectLanguage d = ''typescript''
                                             then BASE_PROMPT_typescript else BASE_PROMPT_javascript),
                          rq_completionPrompt = pr\<rparr>)"
      using False
      by (simp add: completionUntilRequest_def lineAt_valid[OF assms] cc getLanguageContext_def Let_def b)
    with cc show thesis by (rule request)
  qed
qed

lemma completionAfterResponse_length: "length (snd (completionAfterResponse s rq res)) \<le> 1"
  by (auto simp: completionAfterResponse_def catchError_def handleResponse_def Let_def
           split: axios_result.splits response_data.splits js_value.splits list.splits
                  prod.splits sum.splits if_splits)

section \<open>Sanitizing twice\<close>

text \<open>
  Claim C3, as stated, makes \<open>cleanCompletion\<close> idempotent on every text.  The leading line
  breaks are removed before the comment lines are: a comment line at the start leaves
  its line break behind, which only a second application removes.
\<close>

theorem cleanCompletion_not_idempotent:
  "cleanCompletion ''javascript'' (cleanCompletion ''javascript'' (''//a'' @ [newline] @ ''foo''))
     \<noteq> cleanCompletion ''javascript'' (''//a'' @ [newline] @ ''foo'')
   \<and> cleanCompletion ''javascript'' (cleanCompletion ''javascript'' (''//a'' @ [newline] @ ''foo''))
       = ''foo''
   \<and> cleanCompletion ''javascript'' (''//a'' @ [newline] @ ''foo'') = [newline] @ ''foo''"
  by code_simp

text \<open>Where a text holds no piece that a replacement looks for, the replacement keeps it.\<close>

lemma includes_str_sublist: "includes_str s p \<longleftrightarrow> sublist p s"
  by (induction s) (simp_all add: sublist_Cons_right)

lemma removeMatches_id:
  assumes "\<And>t. suffix t s \<Longrightarrow> m t = None"
  shows "removeMatches m s = s"
  using assms
proof (induction s)
  case Nil
  then show ?case by simp
next
  case (Cons c cs)
  have "m (c # cs) = None" by (rule Cons.prems) simp
  moreover have "removeMatches m cs = cs"
    by (rule Cons.IH) (simp add: Cons.prems suffix_Cons)
  ultimately show ?case by simp
qed

lemma no_match_if_no_literal:
  assumes "\<not> includes_str s lit" and "\<And>t. m t \<noteq> None \<Longrightarrow> prefix lit t"
  shows "suffix t s \<Longrightarrow> m t = None"
proof (rule ccontr)
  assume t: "suffix t s" and nm: "m t \<noteq> None"
  from nm have "prefix lit t" by (rule assms(2))
  then have "sublist lit t" by (rule prefix_imp_sublist)
  moreover from t have "sublist t s" by (rule suffix_imp_sublist)
  ultimately have "sublist lit s" by (rule sublist_order.order_trans)
  with assms(1) show False by (simp add: includes_str_sublist)
qed

lemma fenceLangMatch_prefix: "fenceLangMatch t \<noteq> None \<Longrightarrow> prefix [backtick, backtick, backtick] t"
  by (simp add: fenceLangMatch_def split: if_splits)

lemma fenceMatch_prefix: "fenceMatch t \<noteq> None \<Longrightarrow> prefix [backtick, backtick, backtick] t"
  by (simp add: fenceMatch_def split: if_splits)

text \<open>The match of the function pattern is the whole text, so that step changes nothing.\<close>

lemma functionMatch_whole: "functionMatch s = Some m \<Longrightarrow> m = s"
proof -
  assume a: "functionMatch s = Some m"
  define P where "P = (\<lambda>c. c \<noteq> CHR ''{'')"
  define Q where "Q = (\<lambda>c. c \<noteq> CHR ''}'')"
  from a obtain x b where d: "dropWhile P s = x # b"
    by (auto simp: functionMatch_def Let_def P_def split: list.splits)
  from a d have q: "dropWhile Q b = ''}''" and m: "m = takeWhile P s @ ''{'' @ takeWhile Q b @ ''}''"
    by (auto simp: functionMatch_def Let_def P_def Q_def split: list.splits if_splits)
  from d have "\<not> P x" using hd_dropWhile[of P s] by auto
  then have x: "x = CHR ''{''" by (simp add: P_def)
  have "s = takeWhile P s @ dropWhile P s" by simp
  also have "\<dots> = takeWhile P s @ x # (takeWhile Q b @ dropWhile Q b)" by (simp add: d)
  finally show "m = s" using m x q by simp
qed

text \<open>Removing the line breaks at both ends, and doing it again.\<close>

lemma sublist_strip_newlines: "sublist (stripTrailingNewlines (stripLeadingNewlines s)) s"
proof -
  define P where "P = (\<lambda>c. c = newline)"
  have "prefix (rev (dropWhile P (rev y))) y" for y
  proof -
    have "rev y = takeWhile P (rev y) @ dropWhile P (rev y)" by simp
    then have "y = rev (dropWhile P (rev y)) @ rev (takeWhile P (rev y))"
      by (metis rev_append rev_rev_ident)
    then show ?thesis by (metis prefixI)
  qed
  then have "sublist (rev (dropWhile P (rev (dropWhile P s)))) (dropWhile P s)"
    by (rule prefix_imp_sublist)
  moreover have "sublist (dropWhile P s) s"
    by (rule suffix_imp_sublist) (rule suffix_dropWhile)
  ultimately show ?thesis
    unfolding stripTrailingNewlines_def stripLeadingNewlines_def P_def[symmetric]
    by (rule sublist_order.order_trans)
qed

lemma strip_newlines_twice:
  "stripTrailingNewlines (stripLeadingNewlines (stripTrailingNewlines (stripLeadingNewlines s)))
     = stripTrailingNewlines (stripLeadingNewlines s)"
proof -
  define P where "P = (\<lambda>c. c = newline)"
  define w where "w = dropWhile P s"
  have lead: "dropWhile P (rev (dropWhile P (rev w))) = rev (dropWhile P (rev w))"
  proof (cases w)
    case Nil
    then show ?thesis by simp
  next
    case (Cons a w')
    then have "\<not> P a" using hd_dropWhile[of P s] by (simp add: w_def)
    then have "dropWhile P (rev w) = dropWhile P (rev w') @ [a]"
      by (simp add: Cons dropWhile_append3)
    with \<open>\<not> P a\<close> show ?thesis by simp
  qed
  show ?thesis
    by (simp add: stripTrailingNewlines_def stripLeadingNewlines_def P_def[symmetric] w_def[symmetric] lead)
qed

text \<open>Facts about the match of a comment line.\<close>

lemma isLineTerminator_isSpace: "isLineTerminator c \<Longrightarrow> isSpace c"
  by (auto simp: isLineTerminator_def isSpace_def)

lemma lineCommentMatch_space: "isSpace c \<Longrightarrow> lineCommentMatch (c # t) = lineCommentMatch t"
  by (simp add: lineCommentMatch_def)

lemma lineCommentMatch_no_space:
  "\<not> isSpace c \<Longrightarrow> lineCommentMatch (c # t) = None \<longleftrightarrow> \<not> prefix ''//'' (c # t)"
  by (auto simp: lineCommentMatch_def)

lemma lineCommentMatch_rest:
  assumes "lineCommentMatch s = Some r"
  shows "length r < length s" and "suffix r s" and "r = [] \<or> isLineTerminator (hd r)"
proof -
  define w where "w = dropWhile isSpace s"
  from assms have p: "prefix ''//'' w"
    and r: "r = dropWhile (\<lambda>c. \<not> isLineTerminator c) (drop 2 w)"
    by (simp_all add: lineCommentMatch_def Let_def w_def split: if_splits)
  from p have "2 \<le> length w" by (auto simp: prefix_def)
  moreover have "length w \<le> length s" unfolding w_def by (rule length_dropWhile_le)
  moreover have "length r \<le> length (drop 2 w)" unfolding r by (rule length_dropWhile_le)
  ultimately show "length r < length s" by simp
  have "suffix r (drop 2 w)" unfolding r by (rule suffix_dropWhile)
  moreover have "suffix (drop 2 w) w" by (rule suffix_drop)
  moreover have "suffix w s" unfolding w_def by (rule suffix_dropWhile)
  ultimately show "suffix r s" by (meson suffix_order.order_trans)
  show "r = [] \<or> isLineTerminator (hd r)"
    unfolding r using hd_dropWhile[of "\<lambda>c. \<not> isLineTerminator c" "drop 2 w"] by auto
qed

lemma lineCommentMatch_append:
  assumes "lineCommentMatch (t @ u) = None"
  shows "lineCommentMatch t = None"
proof (rule ccontr)
  assume "lineCommentMatch t \<noteq> None"
  then have p: "prefix ''//'' (dropWhile isSpace t)"
    by (simp add: lineCommentMatch_def Let_def split: if_splits)
  have "\<exists>c\<in>set t. \<not> isSpace c"
  proof (rule ccontr)
    assume "\<not> (\<exists>c\<in>set t. \<not> isSpace c)"
    then have "dropWhile isSpace t = []" by simp
    with p show False by simp
  qed
  then obtain c where "c \<in> set t" and "\<not> isSpace c" ..
  then have "dropWhile isSpace (t @ u) = dropWhile isSpace t @ u"
    by (rule dropWhile_append1)
  with p have "prefix ''//'' (dropWhile isSpace (t @ u))" by (simp add: prefix_prefix)
  with assms show False by (simp add: lineCommentMatch_def Let_def)
qed

text \<open>The scan for comment lines, step by step.\<close>

lemma stripLineComments_keep:
  "\<not> b \<or> lineCommentMatch (c # cs) = None
     \<Longrightarrow> stripLineComments b (c # cs) = c # stripLineComments (isLineTerminator c) cs"
  by auto

lemma stripLineComments_drop:
  assumes "lineCommentMatch (c # cs) = Some r"
  shows "stripLineComments True (c # cs) = stripLineComments False r"
  using assms lineCommentMatch_rest(1)[OF assms] by simp

lemma stripLineComments_length: "length (stripLineComments b s) \<le> length s"
proof (induction b s rule: stripLineComments.induct)
  case (1 atStart)
  show ?case by simp
next
  case (2 atStart c cs)
  show ?case
  proof (cases "if atStart then lineCommentMatch (c # cs) else None")
    case None
    with "2.IH"(1) show ?thesis by simp
  next
    case (Some r)
    then have m: "lineCommentMatch (c # cs) = Some r" and a: atStart
      by (simp_all split: if_splits)
    from lineCommentMatch_rest(1)[OF m] have l: "length r < Suc (length cs)" by simp
    from "2.IH"(2)[OF Some l] have "length (stripLineComments False r) \<le> length r" .
    with l Some show ?thesis by simp
  qed
qed

lemma stripLineComments_fixed_Cons:
  assumes "stripLineComments b (c # cs) = c # cs"
  shows "\<not> b \<or> lineCommentMatch (c # cs) = None"
    and "stripLineComments (isLineTerminator c) cs = cs"
proof -
  show 1: "\<not> b \<or> lineCommentMatch (c # cs) = None"
  proof (rule ccontr)
    assume "\<not> (\<not> b \<or> lineCommentMatch (c # cs) = None)"
    then obtain r where b: b and m: "lineCommentMatch (c # cs) = Some r" by auto
    from stripLineComments_drop[OF m] b assms have "stripLineComments False r = c # cs" by simp
    moreover have "length (stripLineComments False r) \<le> length r"
      by (rule stripLineComments_length)
    moreover from lineCommentMatch_rest(1)[OF m] have "length r < length (c # cs)" .
    ultimately show False by simp
  qed
  from stripLineComments_keep[OF 1] assms
  show "stripLineComments (isLineTerminator c) cs = cs" by simp
qed

text \<open>Where no comment line stands at the head of a text, none stands there after the scan.\<close>

lemma lineCommentMatch_stripLineComments:
  "lineCommentMatch s = None \<Longrightarrow> lineCommentMatch (stripLineComments b s) = None"
proof (induction s arbitrary: b)
  case Nil
  then show ?case by simp
next
  case (Cons c cs)
  have k: "stripLineComments b (c # cs) = c # stripLineComments (isLineTerminator c) cs"
    using Cons.prems by (intro stripLineComments_keep) simp
  show ?case
  proof (cases "isSpace c")
    case True
    with Cons.prems have "lineCommentMatch cs = None" by (simp add: lineCommentMatch_space)
    from Cons.IH[OF this] True show ?thesis unfolding k by (simp add: lineCommentMatch_space)
  next
    case False
    then have nl: "\<not> isLineTerminator c" using isLineTerminator_isSpace by blast
    from Cons.prems False have np: "\<not> prefix ''//'' (c # cs)"
      by (simp add: lineCommentMatch_no_space)
    have "\<not> prefix ''//'' (c # stripLineComments False cs)"
    proof
      assume a: "prefix ''//'' (c # stripLineComments False cs)"
      then have c: "c = CHR ''/''" by simp
      from a have "prefix ''/'' (stripLineComments False cs)" unfolding c by simp
      then have "prefix ''/'' cs" by (cases cs) simp_all
      with np show False unfolding c by simp
    qed
    with False nl show ?thesis unfolding k by (simp add: lineCommentMatch_no_space)
  qed
qed

text \<open>No comment line stands at the head of the scanned text.\<close>

lemma lineCommentMatch_scanned: "lineCommentMatch (stripLineComments True s) = None"
proof (induction s rule: length_induct)
  case (1 s)
  show ?case
  proof (cases "lineCommentMatch s")
    case None
    then show ?thesis by (rule lineCommentMatch_stripLineComments)
  next
    case (Some r)
    then obtain c cs where s: "s = c # cs" by (cases s) (simp_all add: lineCommentMatch_def)
    note rest = lineCommentMatch_rest[OF Some]
    have d: "stripLineComments True s = stripLineComments False r"
      using Some unfolding s by (rule stripLineComments_drop)
    show ?thesis
    proof (cases r)
      case Nil
      then show ?thesis by (simp add: d lineCommentMatch_def)
    next
      case (Cons x r')
      with rest(3) have x: "isLineTerminator x" by simp
      from rest(1) Cons have "length r' < length s" by simp
      with 1 have "lineCommentMatch (stripLineComments True r') = None" by blast
      with x show ?thesis
        by (simp add: d Cons lineCommentMatch_space isLineTerminator_isSpace)
    qed
  qed
qed

text \<open>The removal of comment lines is idempotent.\<close>

lemma stripLineComments_idem:
  "stripLineComments b (stripLineComments b s) = stripLineComments b s"
proof (induction s arbitrary: b rule: length_induct)
  case (1 s)
  show ?case
  proof (cases s)
    case Nil
    then show ?thesis by simp
  next
    case (Cons c cs)
    show ?thesis
    proof (cases "\<not> b \<or> lineCommentMatch (c # cs) = None")
      case True
      note k = stripLineComments_keep[OF True]
      have "\<not> b \<or> lineCommentMatch (c # stripLineComments (isLineTerminator c) cs) = None"
      proof (cases b)
        case False
        then show ?thesis by simp
      next
        case b: True
        with True have "lineCommentMatch (c # cs) = None" by simp
        from lineCommentMatch_stripLineComments[OF this, of b, unfolded k] show ?thesis ..
      qed
      from stripLineComments_keep[OF this]
      have "stripLineComments b (c # stripLineComments (isLineTerminator c) cs)
              = c # stripLineComments (isLineTerminator c) (stripLineComments (isLineTerminator c) cs)" .
      moreover from 1 Cons
      have "stripLineComments (isLineTerminator c) (stripLineComments (isLineTerminator c) cs)
              = stripLineComments (isLineTerminator c) cs"
        by simp
      ultimately show ?thesis unfolding Cons k by simp
    next
      case False
      then obtain r where b: b and m: "lineCommentMatch (c # cs) = Some r" by auto
      note rest = lineCommentMatch_rest[OF m]
      have d: "stripLineComments b s = stripLineComments False r"
        using stripLineComments_drop[OF m] b by (simp add: Cons)
      show ?thesis
      proof (cases r)
        case Nil
        then show ?thesis by (simp add: d)
      next
        case r: (Cons x r')
        with rest(3) have x: "isLineTerminator x" by simp
        have e: "stripLineComments False r = x # stripLineComments True r'"
          using x by (simp add: r)
        have "lineCommentMatch (x # stripLineComments True r') = None"
          using x by (simp add: lineCommentMatch_space isLineTerminator_isSpace lineCommentMatch_scanned)
        then have "stripLineComments True (x # stripLineComments True r')
                     = x # stripLineComments True (stripLineComments True r')"
          using x by simp
        moreover from rest(1) r Cons 1
        have "stripLineComments True (stripLineComments True r') = stripLineComments True r'"
          by simp
        ultimately have "stripLineComments True (x # stripLineComments True r')
                           = x # stripLineComments True r'"
          by (simp only:)
        moreover from b have "b = True" by simp
        ultimately show ?thesis unfolding d e by (simp only:)
      qed
    qed
  qed
qed

text \<open>
  A text that the removal of comment lines keeps is still kept when characters are cut
  off at its end, or line breaks at its start.
\<close>

lemma stripLineComments_fixed_prefix:
  "stripLineComments b (s @ u) = s @ u \<Longrightarrow> stripLineComments b s = s"
proof (induction s arbitrary: b)
  case Nil
  then show ?case by simp
next
  case (Cons c cs)
  from Cons.prems have f: "stripLineComments b (c # (cs @ u)) = c # (cs @ u)" by simp
  note fx = stripLineComments_fixed_Cons[OF f]
  from Cons.IH[OF fx(2)] have t: "stripLineComments (isLineTerminator c) cs = cs" .
  have "\<not> b \<or> lineCommentMatch (c # cs) = None"
    using fx(1) lineCommentMatch_append[of "c # cs" u] by auto
  from stripLineComments_keep[OF this] show ?case unfolding t .
qed

lemma stripLineComments_fixed_leading:
  "stripLineComments True s = s \<Longrightarrow> stripLineComments True (stripLeadingNewlines s) = stripLeadingNewlines s"
proof (induction s)
  case Nil
  then show ?case by (simp add: stripLeadingNewlines_def)
next
  case (Cons c cs)
  show ?case
  proof (cases "c = newline")
    case True
    then have lt: "isLineTerminator c" by (simp add: isLineTerminator_def newline_def)
    from stripLineComments_fixed_Cons(2)[OF Cons.prems] lt
    have "stripLineComments True cs = cs" by simp
    from Cons.IH[OF this] True show ?thesis by (simp add: stripLeadingNewlines_def)
  next
    case False
    then have "stripLeadingNewlines (c # cs) = c # cs" by (simp add: stripLeadingNewlines_def)
    with Cons.prems show ?thesis by simp
  qed
qed

lemma stripTrailingNewlines_prefix: "\<exists>u. s = stripTrailingNewlines s @ u"
proof -
  define P where "P = (\<lambda>c. c = newline)"
  have "rev s = takeWhile P (rev s) @ dropWhile P (rev s)" by simp
  then have "s = rev (dropWhile P (rev s)) @ rev (takeWhile P (rev s))"
    by (metis rev_append rev_rev_ident)
  then show ?thesis unfolding stripTrailingNewlines_def P_def[symmetric] by blast
qed

lemma stripLineComments_fixed_trailing:
  assumes "stripLineComments b s = s"
  shows "stripLineComments b (stripTrailingNewlines s) = stripTrailingNewlines s"
proof -
  from stripTrailingNewlines_prefix[of s] obtain u where u: "s = stripTrailingNewlines s @ u" ..
  from assms u have "stripLineComments b (stripTrailingNewlines s @ u) = stripTrailingNewlines s @ u"
    by simp
  then show ?thesis by (rule stripLineComments_fixed_prefix)
qed
text \<open>Code fences: behind the first replacement no fence is left, and nothing later makes one.\<close>

lemma fenceLangMatch_rest: "fenceLangMatch s = Some r \<Longrightarrow> length r < length s"
  by (auto simp: fenceLangMatch_def Let_def skipOptional_def prefix_def split: if_splits)

lemma fenceLangMatch_None_iff:
  "fenceLangMatch s = None \<longleftrightarrow> \<not> prefix [backtick, backtick, backtick] s"
  by (simp add: fenceLangMatch_def Let_def)

lemma removeMatches_fenceLang_head:
  assumes "prefix [backtick] (removeMatches fenceLangMatch s)"
  shows "prefix [backtick] s"
proof (cases s)
  case Nil
  with assms show ?thesis by simp
next
  case (Cons c cs)
  show ?thesis
  proof (cases "fenceLangMatch (c # cs)")
    case None
    with assms Cons show ?thesis by simp
  next
    case (Some r)
    then have "prefix [backtick, backtick, backtick] (c # cs)"
      using fenceLangMatch_None_iff[of "c # cs"] by auto
    then show ?thesis unfolding Cons by simp
  qed
qed

lemma removeMatches_fenceLang_no_fence:
  "\<not> sublist [backtick, backtick, backtick] (removeMatches fenceLangMatch s)"
proof (induction s rule: length_induct)
  case (1 s)
  show ?case
  proof (cases s)
    case Nil
    then show ?thesis by simp
  next
    case (Cons c cs)
    show ?thesis
    proof (cases "fenceLangMatch (c # cs)")
      case (Some r)
      from fenceLangMatch_rest[OF Some] have l: "length r < length s" by (simp add: Cons)
      with Some have "removeMatches fenceLangMatch s = removeMatches fenceLangMatch r"
        by (simp add: Cons)
      with 1 l show ?thesis by simp
    next
      case None
      then have k: "removeMatches fenceLangMatch s = c # removeMatches fenceLangMatch cs"
        by (simp add: Cons)
      from None have np: "\<not> prefix [backtick, backtick, backtick] (c # cs)"
        by (simp add: fenceLangMatch_None_iff)
      from 1 Cons have ih: "\<not> sublist [backtick, backtick, backtick] (removeMatches fenceLangMatch cs)"
        by simp
      have "\<not> prefix [backtick, backtick, backtick] (c # removeMatches fenceLangMatch cs)"
      proof
        assume a: "prefix [backtick, backtick, backtick] (c # removeMatches fenceLangMatch cs)"
        then have c: "c = backtick" by simp
        from a have two: "prefix [backtick, backtick] (removeMatches fenceLangMatch cs)" by simp
        then have "prefix [backtick] (removeMatches fenceLangMatch cs)"
          by (cases "removeMatches fenceLangMatch cs") simp_all
        then have "prefix [backtick] cs" by (rule removeMatches_fenceLang_head)
        then obtain cs1 where cs: "cs = backtick # cs1" by (cases cs) simp_all
        show False
        proof (cases "fenceLangMatch cs")
          case (Some r)
          then have "prefix [backtick, backtick, backtick] cs"
            using fenceLangMatch_None_iff[of cs] by auto
          with np c cs show False by (cases cs1) simp_all
        next
          case None
          then have "removeMatches fenceLangMatch cs = backtick # removeMatches fenceLangMatch cs1"
            by (simp add: cs)
          with two have "prefix [backtick] (removeMatches fenceLangMatch cs1)" by simp
          then have "prefix [backtick] cs1" by (rule removeMatches_fenceLang_head)
          then obtain cs2 where "cs1 = backtick # cs2" by (cases cs1) simp_all
          with np c cs show False by simp
        qed
      qed
      with ih show ?thesis unfolding k by (simp add: sublist_Cons_right)
    qed
  qed
qed

lemma stripLineComments_False_prefix:
  assumes "prefix [x, y] (stripLineComments False s)" and "\<not> isLineTerminator x"
  shows "prefix [x, y] s"
proof -
  from assms(1) obtain s1 where s: "s = x # s1" by (cases s) simp_all
  with assms have "prefix [y] (stripLineComments False s1)" by simp
  then obtain s2 where "s1 = y # s2" by (cases s1) simp_all
  with s show ?thesis by simp
qed

lemma stripLineComments_no_fence:
  "\<not> sublist [backtick, backtick, backtick] s
     \<Longrightarrow> \<not> sublist [backtick, backtick, backtick] (stripLineComments b s)"
proof (induction s arbitrary: b rule: length_induct)
  case (1 s)
  note nf = "1.prems"
  show ?case
  proof (cases s)
    case Nil
    then show ?thesis by simp
  next
    case (Cons c cs)
    show ?thesis
    proof (cases "\<not> b \<or> lineCommentMatch (c # cs) = None")
      case True
      note k = stripLineComments_keep[OF True]
      from nf Cons have np: "\<not> prefix [backtick, backtick, backtick] (c # cs)"
        and ncs: "\<not> sublist [backtick, backtick, backtick] cs"
        by (simp_all add: sublist_Cons_right)
      from 1 Cons ncs
      have ih: "\<not> sublist [backtick, backtick, backtick] (stripLineComments (isLineTerminator c) cs)"
        by simp
      have "\<not> prefix [backtick, backtick, backtick] (c # stripLineComments (isLineTerminator c) cs)"
      proof
        assume a: "prefix [backtick, backtick, backtick] (c # stripLineComments (isLineTerminator c) cs)"
        then have c: "c = backtick" by simp
        have nl: "\<not> isLineTerminator backtick" by (simp add: isLineTerminator_def backtick_def)
        from a have "prefix [backtick, backtick] (stripLineComments False cs)"
          unfolding c using nl by simp
        from stripLineComments_False_prefix[OF this nl] np c show False by simp
      qed
      with ih show ?thesis unfolding Cons k by (simp add: sublist_Cons_right)
    next
      case False
      then obtain r where b: "b = True" and m: "lineCommentMatch (c # cs) = Some r" by auto
      note rest = lineCommentMatch_rest[OF m]
      from rest(2) have "sublist r s" unfolding Cons by (rule suffix_imp_sublist)
      with nf have "\<not> sublist [backtick, backtick, backtick] r"
        by (auto dest: sublist_order.order_trans)
      with 1 rest(1) Cons have "\<not> sublist [backtick, backtick, backtick] (stripLineComments False r)"
        by simp
      then show ?thesis unfolding Cons b stripLineComments_drop[OF m] .
    qed
  qed
qed

text \<open>What the markup removal leaves holds no fence and no comment line.\<close>

lemma stripMarkup_clean:
  "\<not> includes_str (stripMarkup x) [backtick, backtick, backtick]"
  "stripLineComments True (stripMarkup x) = stripMarkup x"
proof -
  define f where "f = removeMatches fenceMatch (removeMatches fenceLangMatch x)"
  have n1: "\<not> includes_str (removeMatches fenceLangMatch x) [backtick, backtick, backtick]"
    by (simp add: includes_str_sublist removeMatches_fenceLang_no_fence)
  have "removeMatches fenceMatch (removeMatches fenceLangMatch x) = removeMatches fenceLangMatch x"
    by (rule removeMatches_id) (rule no_match_if_no_literal[OF n1 fenceMatch_prefix])
  with n1 have "\<not> sublist [backtick, backtick, backtick] f"
    by (simp add: f_def includes_str_sublist)
  moreover have "sublist (stripTrailingNewlines (stripLeadingNewlines f)) f"
    by (rule sublist_strip_newlines)
  ultimately have "\<not> sublist [backtick, backtick, backtick] (stripTrailingNewlines (stripLeadingNewlines f))"
    by (auto dest: sublist_order.order_trans)
  then show "\<not> includes_str (stripMarkup x) [backtick, backtick, backtick]"
    unfolding stripMarkup_def f_def[symmetric] includes_str_sublist
    by (rule stripLineComments_no_fence)
  show "stripLineComments True (stripMarkup x) = stripMarkup x"
    unfolding stripMarkup_def by (rule stripLineComments_idem)
qed

text \<open>On a text without fence and comment line, the markup removal strips the line breaks.\<close>

lemma stripMarkup_on_clean:
  assumes "\<not> includes_str y [backtick, backtick, backtick]"
    and "stripLineComments True y = y"
  shows "stripMarkup y = stripTrailingNewlines (stripLeadingNewlines y)"
proof -
  have 1: "removeMatches fenceLangMatch y = y"
    by (rule removeMatches_id) (rule no_match_if_no_literal[OF assms(1) fenceLangMatch_prefix])
  have 2: "removeMatches fenceMatch y = y"
    by (rule removeMatches_id) (rule no_match_if_no_literal[OF assms(1) fenceMatch_prefix])
  have "stripLineComments True (stripTrailingNewlines (stripLeadingNewlines y))
          = stripTrailingNewlines (stripLeadingNewlines y)"
    by (intro stripLineComments_fixed_trailing stripLineComments_fixed_leading assms(2))
  then show ?thesis by (simp add: stripMarkup_def 1 2)
qed

text \<open>A \<open>console.log\<close> call that the pattern finds in a piece of a text, it finds in the text.\<close>

lemma lazyUntil_length: "lazyUntil lit r = Some g \<Longrightarrow> length lit \<le> length r"
proof (induction r arbitrary: g)
  case Nil
  then show ?case by (simp split: if_splits)
next
  case (Cons c cs)
  show ?case
  proof (cases "prefix lit (c # cs)")
    case True
    then show ?thesis by (rule prefix_length_le)
  next
    case False
    with Cons.prems obtain g' where "lazyUntil lit cs = Some g'"
      by (auto split: if_splits)
    from Cons.IH[OF this] show ?thesis by simp
  qed
qed

lemma lazyUntil_append:
  "lazyUntil lit r = Some g \<Longrightarrow> lit \<noteq> [] \<Longrightarrow> lazyUntil lit (r @ u) = Some g"
proof (induction r arbitrary: g)
  case Nil
  then show ?case by simp
next
  case (Cons c cs)
  show ?case
  proof (cases "prefix lit (c # cs)")
    case True
    then have "prefix lit ((c # cs) @ u)" by (rule prefix_prefix)
    with True Cons.prems show ?thesis by simp
  next
    case False
    with Cons.prems obtain g' where g': "lazyUntil lit cs = Some g'" and g: "g = c # g'"
      and nl: "\<not> isLineTerminator c"
      by (auto split: if_splits)
    from lazyUntil_length[OF g'] have "length lit \<le> length (c # cs)" by simp
    with False have "\<not> prefix lit ((c # cs) @ u)"
      using prefix_length_prefix[of lit "(c # cs) @ u" "c # cs"] prefixI[of "(c # cs) @ u" "c # cs" u]
      by blast
    with Cons.IH[OF g' Cons.prems(2)] g nl show ?thesis by simp
  qed
qed

lemma consoleLogHere_append:
  assumes "consoleLogHere (t @ u) = None"
  shows "consoleLogHere t = None"
proof (rule ccontr)
  assume "consoleLogHere t \<noteq> None"
  then obtain g where g: "consoleLogHere t = Some g" by auto
  then have p: "prefix ''console.log('' t"
    by (simp add: consoleLogHere_def split: if_splits)
  then have l: "12 \<le> length t" by (auto simp: prefix_def)
  from g p obtain q r where d: "drop 12 t = q # r" and q: "q = dquote \<or> q = squote"
    and lz: "lazyUntil [q, CHR '')''] r = Some g"
    by (auto simp: consoleLogHere_def split: list.splits if_splits)
  from l d have d': "drop 12 (t @ u) = q # (r @ u)" by simp
  from p have p': "prefix ''console.log('' (t @ u)" by (rule prefix_prefix)
  from lazyUntil_append[OF lz, of u] have "lazyUntil [q, CHR '')''] (r @ u) = Some g" by simp
  with p' d' q have "consoleLogHere (t @ u) = Some g"
    unfolding consoleLogHere_def by (simp only: if_True list.case)
  with assms show False by simp
qed

lemma consoleLogMatch_None_iff:
  "consoleLogMatch s = None \<longleftrightarrow> (\<forall>t. suffix t s \<longrightarrow> consoleLogHere t = None)"
proof (induction s)
  case Nil
  then show ?case by (simp add: consoleLogHere_def)
next
  case (Cons c cs)
  then show ?case by (auto simp: suffix_Cons split: option.splits)
qed

lemma consoleLogMatch_sublist:
  assumes "sublist t s" and "consoleLogMatch s = None"
  shows "consoleLogMatch t = None"
proof -
  from assms(1) obtain a u where s: "s = a @ t @ u" by (auto simp: sublist_def)
  have "consoleLogHere v = None" if "suffix v t" for v
  proof -
    from that obtain w where "t = w @ v" by (auto simp: suffix_def)
    then have "suffix (v @ u) s" by (simp add: s suffix_def)
    with assms(2) have "consoleLogHere (v @ u) = None" by (simp add: consoleLogMatch_None_iff)
    then show ?thesis by (rule consoleLogHere_append)
  qed
  then show ?thesis by (simp add: consoleLogMatch_None_iff)
qed

text \<open>The collapse to a single \<open>console.log\<close> call, and what a second pass makes of its result.\<close>

lemma lazyUntil_sound:
  "lazyUntil lit r = Some g \<Longrightarrow> prefix (g @ lit) r \<and> (\<forall>c\<in>set g. \<not> isLineTerminator c)"
proof (induction r arbitrary: g)
  case Nil
  then show ?case by (simp split: if_splits)
next
  case (Cons c cs)
  show ?case
  proof (cases "prefix lit (c # cs)")
    case True
    with Cons.prems show ?thesis by simp
  next
    case False
    with Cons.prems obtain g' where g': "lazyUntil lit cs = Some g'" and g: "g = c # g'"
      and nl: "\<not> isLineTerminator c"
      by (auto split: if_splits)
    from Cons.IH[OF g'] g nl show ?thesis by simp
  qed
qed

lemma lazyUntil_complete:
  assumes "q \<noteq> CHR '')''"
  shows "\<not> sublist [q, CHR '')''] g \<Longrightarrow> \<forall>c\<in>set g. \<not> isLineTerminator c
           \<Longrightarrow> lazyUntil [q, CHR '')''] (g @ [q, CHR '')'']) = Some g"
proof (induction g)
  case Nil
  then show ?case by simp
next
  case (Cons c g')
  from Cons.prems(1) have np: "\<not> prefix [q, CHR '')''] (c # g')"
    and ns: "\<not> sublist [q, CHR '')''] g'"
    by (simp_all add: sublist_Cons_right)
  have "\<not> prefix [q, CHR '')''] (c # g' @ [q, CHR '')''])"
  proof
    assume a: "prefix [q, CHR '')''] (c # g' @ [q, CHR '')''])"
    show False
    proof (cases g')
      case Nil
      with a assms show False by simp
    next
      case (Cons d g'')
      with a np show False by simp
    qed
  qed
  moreover from Cons.prems(2) have "\<not> isLineTerminator c" and "\<forall>c\<in>set g'. \<not> isLineTerminator c"
    by simp_all
  moreover note Cons.IH[OF ns this(2)]
  ultimately show ?case by simp
qed

lemma consoleLogMatch_Some:
  "consoleLogMatch s = Some g \<Longrightarrow> \<exists>t. suffix t s \<and> consoleLogHere t = Some g"
proof (induction s)
  case Nil
  then show ?case by simp
next
  case (Cons c cs)
  show ?case
  proof (cases "consoleLogHere (c # cs)")
    case None
    with Cons.prems have "consoleLogMatch cs = Some g" by simp
    from Cons.IH[OF this] show ?thesis by (auto simp: suffix_Cons)
  next
    case (Some h)
    with Cons.prems have "consoleLogHere (c # cs) = Some g" by simp
    then show ?thesis by blast
  qed
qed

lemma consoleLogHere_Some:
  assumes "consoleLogHere t = Some g"
  shows "prefix ''console.log('' t"
    and "\<exists>q r. drop 12 t = q # r \<and> lazyUntil [q, CHR '')''] r = Some g"
  using assms by (auto simp: consoleLogHere_def split: if_splits list.splits)

lemma consoleLogMatch_group:
  assumes "consoleLogMatch s = Some g"
  shows "sublist ''console.log('' s" and "sublist g s" and "\<forall>c\<in>set g. \<not> isLineTerminator c"
proof -
  from consoleLogMatch_Some[OF assms] obtain t where t: "suffix t s" and h: "consoleLogHere t = Some g"
    by blast
  from consoleLogHere_Some[OF h] obtain q r where p: "prefix ''console.log('' t"
    and d: "drop 12 t = q # r" and l: "lazyUntil [q, CHR '')''] r = Some g"
    by blast
  from t have ts: "sublist t s" by (rule suffix_imp_sublist)
  from p have "sublist ''console.log('' t" by (rule prefix_imp_sublist)
  with ts show "sublist ''console.log('' s" by (meson sublist_order.order_trans)
  from lazyUntil_sound[OF l] have pg: "prefix (g @ [q, CHR '')'']) r"
    and nl: "\<forall>c\<in>set g. \<not> isLineTerminator c"
    by blast+
  from nl show "\<forall>c\<in>set g. \<not> isLineTerminator c" .
  from pg have "prefix g r" by (rule append_prefixD)
  then have "sublist g r" by (rule prefix_imp_sublist)
  moreover have "suffix r (q # r)" by (simp add: suffix_Cons)
  then have "sublist r (drop 12 t)" unfolding d by (rule suffix_imp_sublist)
  moreover have "sublist (drop 12 t) t" by (rule suffix_imp_sublist) (rule suffix_drop)
  ultimately show "sublist g s" using ts by (meson sublist_order.order_trans)
qed

lemma stripLineComments_one_line:
  "\<forall>c\<in>set s. \<not> isLineTerminator c \<Longrightarrow> stripLineComments False s = s"
  by (induction s) simp_all

lemma no_fence_Cons:
  "c \<noteq> backtick \<Longrightarrow> sublist [backtick, backtick, backtick] (c # s)
     \<longleftrightarrow> sublist [backtick, backtick, backtick] s"
  by (simp add: sublist_Cons_right)

lemma no_fence_snoc:
  assumes "c \<noteq> backtick"
  shows "sublist [backtick, backtick, backtick] (s @ [c]) \<longleftrightarrow> sublist [backtick, backtick, backtick] s"
proof -
  have "sublist [backtick, backtick, backtick] (s @ [c])
          \<longleftrightarrow> sublist (rev [backtick, backtick, backtick]) (rev (s @ [c]))"
    by (simp only: sublist_rev)
  also have "\<dots> \<longleftrightarrow> sublist [backtick, backtick, backtick] (c # rev s)" by simp
  also have "\<dots> \<longleftrightarrow> sublist [backtick, backtick, backtick] (rev s)"
    using assms by (rule no_fence_Cons)
  also have "\<dots> \<longleftrightarrow> sublist (rev [backtick, backtick, backtick]) (rev s)" by simp
  also have "\<dots> \<longleftrightarrow> sublist [backtick, backtick, backtick] s" by (simp only: sublist_rev)
  finally show ?thesis .
qed

lemma no_fence_append:
  assumes "\<not> sublist [backtick, backtick, backtick] s"
    and "backtick \<notin> set a" and "backtick \<notin> set b"
  shows "\<not> sublist [backtick, backtick, backtick] (a @ s @ b)"
proof -
  have 1: "\<not> sublist [backtick, backtick, backtick] (s @ b)"
    using assms(3)
  proof (induction b rule: rev_induct)
    case Nil
    with assms(1) show ?case by simp
  next
    case (snoc c b)
    then have "c \<noteq> backtick" and "\<not> sublist [backtick, backtick, backtick] (s @ b)" by auto
    with no_fence_snoc[of c "s @ b"] show ?case by simp
  qed
  show ?thesis
    using assms(2)
  proof (induction a)
    case Nil
    with 1 show ?case by simp
  next
    case (Cons c a)
    then have "c \<noteq> backtick" and "\<not> sublist [backtick, backtick, backtick] (a @ s @ b)" by auto
    with no_fence_Cons[of c "a @ s @ b"] show ?case by simp
  qed
qed

lemma cleanCompletion_collapsed:
  assumes "\<forall>c\<in>set g. \<not> isLineTerminator c"
    and "\<not> sublist [backtick, backtick, backtick] g"
    and "\<not> includes_str g [dquote, CHR '')'']"
  shows "cleanCompletion language (''console.log('' @ [dquote] @ g @ [dquote] @ '')'')
           = ''console.log('' @ [dquote] @ g @ [dquote] @ '')''"
    and "stripTrailingNewlines (stripLeadingNewlines (''console.log('' @ [dquote] @ g @ [dquote] @ '')''))
           = ''console.log('' @ [dquote] @ g @ [dquote] @ '')''"
proof -
  define pre where "pre = ''onsole.log('' @ [dquote]"
  define post where "post = [dquote] @ '')''"
  define y where "y = CHR ''c'' # pre @ g @ post"
  have y: "''console.log('' @ [dquote] @ g @ [dquote] @ '')'' = y"
    by (simp add: y_def pre_def post_def)
  have bt: "backtick \<notin> set (CHR ''c'' # pre)" "backtick \<notin> set post"
    unfolding pre_def post_def by code_simp+
  have lt: "\<forall>c\<in>set pre. \<not> isLineTerminator c" "\<forall>c\<in>set post. \<not> isLineTerminator c"
    unfolding pre_def post_def by code_simp+
  have "\<not> sublist [backtick, backtick, backtick] ((CHR ''c'' # pre) @ g @ post)"
    by (rule no_fence_append[OF assms(2) bt])
  then have nf: "\<not> includes_str y [backtick, backtick, backtick]"
    by (simp add: y_def includes_str_sublist)
  have lc: "lineCommentMatch (CHR ''c'' # pre @ g @ post) = None"
    by (simp add: lineCommentMatch_def isSpace_def)
  have "stripLineComments False (pre @ g @ post) = pre @ g @ post"
    by (rule stripLineComments_one_line) (use lt assms(1) in auto)
  moreover have "\<not> isLineTerminator CHR ''c''" by (simp add: isLineTerminator_def)
  ultimately have cf: "stripLineComments True y = y"
    unfolding y_def using stripLineComments_keep[of True "CHR ''c''" "pre @ g @ post"] lc by simp
  have ln: "stripLeadingNewlines y = y"
    by (simp add: stripLeadingNewlines_def y_def newline_def)
  have "rev y = CHR '')'' # dquote # rev g @ rev pre @ ''c''"
    by (simp add: y_def post_def)
  then have "dropWhile (\<lambda>c. c = newline) (rev y) = rev y"
    by (simp add: newline_def)
  then have tn: "stripTrailingNewlines y = y"
    by (simp add: stripTrailingNewlines_def)
  show "stripTrailingNewlines (stripLeadingNewlines (''console.log('' @ [dquote] @ g @ [dquote] @ '')'')) 
           = ''console.log('' @ [dquote] @ g @ [dquote] @ '')''"
    unfolding y by (simp add: ln tn)
  have markup: "stripMarkup y = y"
    using stripMarkup_on_clean[OF nf cf] by (simp add: ln tn)
  have fn: "(case functionMatch y of Some m \<Rightarrow> m | None \<Rightarrow> y) = y"
    by (auto split: option.splits dest: functionMatch_whole)
  have p: "prefix ''console.log('' y" by (simp add: y_def pre_def)
  then have inc: "includes_str y ''console.log(''"
    unfolding includes_str_sublist by (rule prefix_imp_sublist)
  have d: "drop 12 y = dquote # g @ [dquote, CHR '')'']"
    by (simp add: y_def pre_def post_def)
  have dq: "dquote \<noteq> CHR '')''" by (simp add: dquote_def)
  from assms(3) have "\<not> sublist [dquote, CHR '')''] g" by (simp add: includes_str_sublist)
  from lazyUntil_complete[OF dq this assms(1)]
  have "lazyUntil [dquote, CHR '')''] (g @ [dquote, CHR '')'']) = Some g" .
  with p d have "consoleLogHere y = Some g"
    unfolding consoleLogHere_def by (simp only: if_True list.case simp_thms)
  then have "consoleLogMatch y = Some g" by (simp add: y_def)
  with inc have "cleanCompletion language y = ''console.log('' @ [dquote] @ g @ [dquote] @ '')''"
    by (simp add: cleanCompletion_def Let_def markup fn)
  then show "cleanCompletion language (''console.log('' @ [dquote] @ g @ [dquote] @ '')'')
           = ''console.log('' @ [dquote] @ g @ [dquote] @ '')''"
    unfolding y .
qed
text \<open>
  A replacement that changes nothing in a text finds no match in it, and then none in a
  piece of it: every pattern of the sanitizer that matches a text matches the text with
  more characters behind it.
\<close>

lemma removeMatches_length: "length (removeMatches m s) \<le> length s"
proof (induction s rule: length_induct)
  case (1 s)
  show ?case
  proof (cases s)
    case Nil
    then show ?thesis by simp
  next
    case (Cons c cs)
    from 1 Cons have ih: "length (removeMatches m cs) \<le> length cs" by simp
    show ?thesis
    proof (cases "m (c # cs)")
      case None
      with ih show ?thesis by (simp add: Cons)
    next
      case (Some r)
      show ?thesis
      proof (cases "length r < Suc (length cs)")
        case True
        with 1 Cons have "length (removeMatches m r) \<le> length r" by simp
        with True Some show ?thesis by (simp add: Cons)
      next
        case False
        with Some ih show ?thesis by (simp add: Cons)
      qed
    qed
  qed
qed

lemma removeMatches_fixed_None:
  assumes "\<And>t r. m t = Some r \<Longrightarrow> length r < length t"
  shows "removeMatches m s = s \<Longrightarrow> suffix t s \<Longrightarrow> m t = None"
proof (induction s)
  case Nil
  then have "t = []" by simp
  with assms[of "[]"] show ?case by (cases "m []") auto
next
  case (Cons c cs)
  have here: "m (c # cs) = None"
  proof (rule ccontr)
    assume "m (c # cs) \<noteq> None"
    then obtain r where r: "m (c # cs) = Some r" by auto
    from assms[OF r] have l: "length r < Suc (length cs)" by simp
    with r Cons.prems(1) have "removeMatches m r = c # cs" by simp
    moreover have "length (removeMatches m r) \<le> length r" by (rule removeMatches_length)
    ultimately show False using l by simp
  qed
  with Cons.prems(1) have rest: "removeMatches m cs = cs" by simp
  from Cons.prems(2) consider "t = c # cs" | "suffix t cs" by (auto simp: suffix_Cons)
  then show ?case
  proof cases
    case 1
    with here show ?thesis by simp
  next
    case 2
    from Cons.IH[OF rest 2] show ?thesis .
  qed
qed

lemma removeMatches_fixed_sublist:
  assumes proper: "\<And>t r. m t = Some r \<Longrightarrow> length r < length t"
    and more_text: "\<And>t u. m (t @ u) = None \<Longrightarrow> m t = None"
    and fixed: "removeMatches m s = s"
    and sub: "sublist w s"
  shows "removeMatches m w = w"
proof (rule removeMatches_id)
  fix v
  assume v: "suffix v w"
  from sub obtain a u where s: "s = a @ w @ u" by (auto simp: sublist_def)
  from v obtain b where "w = b @ v" by (auto simp: suffix_def)
  then have "suffix (v @ u) s" by (simp add: s suffix_def)
  from removeMatches_fixed_None[of m, OF proper fixed this] have "m (v @ u) = None" .
  then show "m v = None" by (rule more_text)
qed

lemma removeMatches_same_length:
  "length (removeMatches m s) = length s \<Longrightarrow> removeMatches m s = s"
proof (induction s)
  case Nil
  then show ?case by simp
next
  case (Cons c cs)
  have keep: "removeMatches m (c # cs) = c # removeMatches m cs"
  proof (cases "m (c # cs)")
    case None
    then show ?thesis by simp
  next
    case (Some r)
    show ?thesis
    proof (cases "length r < Suc (length cs)")
      case True
      with Some have "removeMatches m (c # cs) = removeMatches m r" by simp
      moreover have "length (removeMatches m r) \<le> length r" by (rule removeMatches_length)
      ultimately show ?thesis using True Cons.prems by simp
    next
      case False
      with Some show ?thesis by simp
    qed
  qed
  with Cons.prems have "length (removeMatches m cs) = length cs" by simp
  from Cons.IH[OF this] keep show ?case by simp
qed

lemma prefix_Cons_not_Nil: "prefix (a # p) xs \<Longrightarrow> xs \<noteq> []"
  by (cases xs) simp_all

lemma span_append:
  assumes "dropWhile P xs \<noteq> []"
  shows "takeWhile P (xs @ u) = takeWhile P xs" and "dropWhile P (xs @ u) = dropWhile P xs @ u"
proof -
  from assms obtain x where x: "x \<in> set xs" "\<not> P x" by (auto simp: dropWhile_eq_Nil_conv)
  from x show "takeWhile P (xs @ u) = takeWhile P xs" by (rule takeWhile_append1)
  from x show "dropWhile P (xs @ u) = dropWhile P xs @ u" by (rule dropWhile_append1)
qed

lemma typeAnnotationMatch_proper: "typeAnnotationMatch t = Some r \<Longrightarrow> length r < length t"
proof -
  assume a: "typeAnnotationMatch t = Some r"
  then have p: "prefix '': '' t" and r: "r = dropWhile isWord (drop 2 t)"
    by (auto simp: typeAnnotationMatch_def Let_def split: if_splits list.splits)
  from p have "2 \<le> length t" by (auto simp: prefix_def)
  moreover have "length r \<le> length (drop 2 t)" unfolding r by (rule length_dropWhile_le)
  ultimately show ?thesis by simp
qed

lemma typeAnnotationMatch_append:
  assumes "typeAnnotationMatch (t @ u) = None"
  shows "typeAnnotationMatch t = None"
proof (rule ccontr)
  assume "typeAnnotationMatch t \<noteq> None"
  then obtain c r where p: "prefix '': '' t" and d: "dropWhile isWord (drop 2 t) = c # r"
    and w: "takeWhile isWord (drop 2 t) \<noteq> []" and c: "isSpace c \<or> c = CHR '','' \<or> c = CHR '')''"
    by (auto simp: typeAnnotationMatch_def Let_def split: if_splits list.splits)
  from p have l: "2 \<le> length t" by (auto simp: prefix_def)
  from d have ne: "dropWhile isWord (drop 2 t) \<noteq> []" by simp
  from l have dr: "drop 2 (t @ u) = drop 2 t @ u" by simp
  from p have p': "prefix '': '' (t @ u)" by (rule prefix_prefix)
  have "typeAnnotationMatch (t @ u) = Some ((c # r) @ u)"
    unfolding typeAnnotationMatch_def Let_def dr span_append[OF ne] d
    using p' w c by simp
  with assms show False by simp
qed

lemma genericMatch_proper: "genericMatch t = Some r \<Longrightarrow> length r < length t"
proof -
  assume a: "genericMatch t = Some r"
  then obtain c s x where t: "t = c # s" and d: "dropWhile (\<lambda>c. c \<noteq> CHR ''>'') s = x # r"
    by (auto simp: genericMatch_def split: if_splits list.splits)
  have "length (dropWhile (\<lambda>c. c \<noteq> CHR ''>'') s) \<le> length s" by (rule length_dropWhile_le)
  with d t show ?thesis by simp
qed

lemma genericMatch_append:
  assumes "genericMatch (t @ u) = None"
  shows "genericMatch t = None"
proof (rule ccontr)
  assume "genericMatch t \<noteq> None"
  then obtain s x r where t: "t = CHR ''<'' # s"
    and w: "takeWhile (\<lambda>c. c \<noteq> CHR ''>'') s \<noteq> []"
    and d: "dropWhile (\<lambda>c. c \<noteq> CHR ''>'') s = x # r"
    by (auto simp: genericMatch_def split: if_splits list.splits)
  from d have ne: "dropWhile (\<lambda>c. c \<noteq> CHR ''>'') s \<noteq> []" by simp
  have "genericMatch (CHR ''<'' # s @ u) = Some (r @ u)"
    unfolding genericMatch_def list.case span_append[OF ne] d using w by simp
  with assms t show False by simp
qed

lemma arrayTypeMatch_proper: "arrayTypeMatch t = Some r \<Longrightarrow> length r < length t"
proof -
  assume a: "arrayTypeMatch t = Some r"
  then have p: "prefix '': '' t" and r: "r = drop 2 (dropWhile isWord (drop 2 t))"
    by (auto simp: arrayTypeMatch_def Let_def split: if_splits)
  from p have "2 \<le> length t" by (auto simp: prefix_def)
  moreover have "length (dropWhile isWord (drop 2 t)) \<le> length (drop 2 t)"
    by (rule length_dropWhile_le)
  ultimately show ?thesis unfolding r by simp
qed

lemma arrayTypeMatch_append:
  assumes "arrayTypeMatch (t @ u) = None"
  shows "arrayTypeMatch t = None"
proof (rule ccontr)
  assume "arrayTypeMatch t \<noteq> None"
  then have p: "prefix '': '' t" and w: "takeWhile isWord (drop 2 t) \<noteq> []"
    and b: "prefix ''[]'' (dropWhile isWord (drop 2 t))"
    by (auto simp: arrayTypeMatch_def Let_def split: if_splits)
  from p have l: "2 \<le> length t" by (auto simp: prefix_def)
  from b have ne: "dropWhile isWord (drop 2 t) \<noteq> []" by (rule prefix_Cons_not_Nil)
  from l have dr: "drop 2 (t @ u) = drop 2 t @ u" by simp
  from p have p': "prefix '': '' (t @ u)" by (rule prefix_prefix)
  from b have b': "prefix ''[]'' (dropWhile isWord (drop 2 t) @ u)" by (rule prefix_prefix)
  have "arrayTypeMatch (t @ u) \<noteq> None"
    unfolding arrayTypeMatch_def Let_def dr span_append[OF ne]
    using p' w b' by simp
  with assms show False by simp
qed

lemma interfaceMatch_proper: "interfaceMatch t = Some r \<Longrightarrow> length r < length t"
proof -
  assume a: "interfaceMatch t = Some r"
  define v where "v = dropWhile isWord (drop 10 t)"
  from a obtain x where p: "prefix ''interface '' t"
    and d: "dropWhile (\<lambda>c. c \<noteq> CHR ''}'') (drop 2 v) = x # r"
    by (auto simp: interfaceMatch_def Let_def v_def split: if_splits list.splits)
  have "length (dropWhile (\<lambda>c. c \<noteq> CHR ''}'') (drop 2 v)) \<le> length (drop 2 v)"
    by (rule length_dropWhile_le)
  with d have "length r < length v \<or> length r < length (drop 2 v)" by auto
  moreover have "length (drop 2 v) \<le> length v" by simp
  moreover have "length v \<le> length (drop 10 t)" unfolding v_def by (rule length_dropWhile_le)
  ultimately show ?thesis by auto
qed

lemma interfaceMatch_append:
  assumes "interfaceMatch (t @ u) = None"
  shows "interfaceMatch t = None"
proof (rule ccontr)
  assume n: "interfaceMatch t \<noteq> None"
  define v where "v = dropWhile isWord (drop 10 t)"
  from n obtain x r where p: "prefix ''interface '' t"
    and w: "takeWhile isWord (drop 10 t) \<noteq> []"
    and b: "prefix '' {'' v"
    and k: "takeWhile (\<lambda>c. c \<noteq> CHR ''}'') (drop 2 v) \<noteq> []"
    and d: "dropWhile (\<lambda>c. c \<noteq> CHR ''}'') (drop 2 v) = x # r"
    by (auto simp: interfaceMatch_def Let_def v_def split: if_splits list.splits)
  from p have l: "10 \<le> length t" by (auto simp: prefix_def)
  from b have ne: "dropWhile isWord (drop 10 t) \<noteq> []"
    unfolding v_def by (rule prefix_Cons_not_Nil)
  from b have lv: "2 \<le> length v" by (auto simp: prefix_def)
  from d have ne2: "dropWhile (\<lambda>c. c \<noteq> CHR ''}'') (drop 2 v) \<noteq> []" by simp
  from l have dr: "drop 10 (t @ u) = drop 10 t @ u" by simp
  from lv have dv: "drop 2 (v @ u) = drop 2 v @ u" by simp
  from p have p': "prefix ''interface '' (t @ u)" by (rule prefix_prefix)
  from b have b': "prefix '' {'' (v @ u)" by (rule prefix_prefix)
  have "interfaceMatch (t @ u) = Some (r @ u)"
    unfolding interfaceMatch_def Let_def dr span_append[OF ne] v_def[symmetric] dv
      span_append[OF ne2] d
    using p' w b' k by simp
  with assms show False by simp
qed

text \<open>Where the removal of types changes nothing in a text, it changes nothing in a piece of it.\<close>

lemma stripTypes_fixed_sublist:
  assumes "stripTypes y = y" and "sublist w y"
  shows "stripTypes w = w"
proof -
  define y1 where "y1 = removeMatches typeAnnotationMatch y"
  define y2 where "y2 = removeMatches genericMatch y1"
  define y3 where "y3 = removeMatches arrayTypeMatch y2"
  have l1: "length y1 \<le> length y" unfolding y1_def by (rule removeMatches_length)
  have l2: "length y2 \<le> length y1" unfolding y2_def by (rule removeMatches_length)
  have l3: "length y3 \<le> length y2" unfolding y3_def by (rule removeMatches_length)
  have l4: "length (removeMatches interfaceMatch y3) \<le> length y3" by (rule removeMatches_length)
  from assms(1) have e: "removeMatches interfaceMatch y3 = y"
    by (simp add: stripTypes_def y1_def y2_def y3_def)
  from l1 l2 l3 l4 e have "length y1 = length y" by simp
  then have f1: "removeMatches typeAnnotationMatch y = y"
    unfolding y1_def by (rule removeMatches_same_length)
  then have y1: "y1 = y" by (simp add: y1_def)
  from l1 l2 l3 l4 e have "length y2 = length y1" by simp
  then have "removeMatches genericMatch y1 = y1"
    unfolding y2_def by (rule removeMatches_same_length)
  then have f2: "removeMatches genericMatch y = y" and y2: "y2 = y" by (simp_all add: y1 y2_def)
  from l1 l2 l3 l4 e have "length y3 = length y2" by simp
  then have "removeMatches arrayTypeMatch y2 = y2"
    unfolding y3_def by (rule removeMatches_same_length)
  then have f3: "removeMatches arrayTypeMatch y = y" and y3: "y3 = y" by (simp_all add: y2 y3_def)
  from e have f4: "removeMatches interfaceMatch y = y" by (simp add: y3)
  have t1: "removeMatches typeAnnotationMatch w = w"
    by (rule removeMatches_fixed_sublist[OF typeAnnotationMatch_proper typeAnnotationMatch_append f1 assms(2)])
  have t2: "removeMatches genericMatch w = w"
    by (rule removeMatches_fixed_sublist[OF genericMatch_proper genericMatch_append f2 assms(2)])
  have t3: "removeMatches arrayTypeMatch w = w"
    by (rule removeMatches_fixed_sublist[OF arrayTypeMatch_proper arrayTypeMatch_append f3 assms(2)])
  have t4: "removeMatches interfaceMatch w = w"
    by (rule removeMatches_fixed_sublist[OF interfaceMatch_proper interfaceMatch_append f4 assms(2)])
  show ?thesis by (simp add: stripTypes_def t1 t2 t3 t4)
qed
text \<open>
  On a text in which the replacements find nothing (no fence, no comment line, no
  \<open>console.log\<close> call and, for \<open>javascript\<close>, no type) the sanitizer removes the line breaks
  at the two ends and nothing else.
\<close>

lemma cleanCompletion_on_clean:
  assumes "\<not> includes_str y [backtick, backtick, backtick]"
    and "stripLineComments True y = y"
    and "consoleLogMatch y = None"
    and "language = ''javascript'' \<longrightarrow> stripTypes y = y"
  shows "cleanCompletion language y = stripTrailingNewlines (stripLeadingNewlines y)"
proof -
  define w where "w = stripTrailingNewlines (stripLeadingNewlines y)"
  have sub: "sublist w y" unfolding w_def by (rule sublist_strip_newlines)
  have markup: "stripMarkup y = w"
    unfolding w_def by (rule stripMarkup_on_clean[OF assms(1,2)])
  have fn: "(case functionMatch w of Some m \<Rightarrow> m | None \<Rightarrow> w) = w"
    by (auto split: option.splits dest: functionMatch_whole)
  have cl: "consoleLogMatch w = None"
    by (rule consoleLogMatch_sublist[OF sub assms(3)])
  have types: "stripTypes w = w" if "language = ''javascript''"
  proof -
    from that assms(4) have "stripTypes y = y" by simp
    then show ?thesis using sub by (rule stripTypes_fixed_sublist)
  qed
  show ?thesis
    unfolding w_def[symmetric]
    using types by (simp add: cleanCompletion_def Let_def markup fn cl)
qed

lemma cleanCompletion_no_console:
  assumes "consoleLogMatch (stripMarkup x) = None" and "language \<noteq> ''javascript''"
  shows "cleanCompletion language x = stripMarkup x"
proof -
  have fn: "(case functionMatch (stripMarkup x) of Some m \<Rightarrow> m | None \<Rightarrow> stripMarkup x) = stripMarkup x"
    by (auto split: option.splits dest: functionMatch_whole)
  show ?thesis using assms by (simp add: cleanCompletion_def Let_def fn)
qed

lemma cleanCompletion_console:
  assumes "consoleLogMatch (stripMarkup x) = Some g"
  shows "cleanCompletion language x = ''console.log('' @ [dquote] @ g @ [dquote] @ '')''"
proof -
  have fn: "(case functionMatch (stripMarkup x) of Some m \<Rightarrow> m | None \<Rightarrow> stripMarkup x) = stripMarkup x"
    by (auto split: option.splits dest: functionMatch_whole)
  from consoleLogMatch_group(1)[OF assms] have "includes_str (stripMarkup x) ''console.log(''"
    by (simp add: includes_str_sublist)
  with assms show ?thesis by (simp add: cleanCompletion_def Let_def fn)
qed

text \<open>
  The sanitizer in short: the collapsed call when the pattern finds a \<open>console.log\<close> call in
  the text without its markup, and otherwise that text, for \<open>javascript\<close> without its types.
\<close>

lemma cleanCompletion_cases:
  "cleanCompletion language x
     = (case consoleLogMatch (stripMarkup x) of
          Some g \<Rightarrow> ''console.log('' @ [dquote] @ g @ [dquote] @ '')''
        | None \<Rightarrow> if language = ''javascript'' then stripTypes (stripMarkup x) else stripMarkup x)"
proof (cases "consoleLogMatch (stripMarkup x)")
  case None
  have fn: "(case functionMatch (stripMarkup x) of Some m \<Rightarrow> m | None \<Rightarrow> stripMarkup x) = stripMarkup x"
    by (auto split: option.splits dest: functionMatch_whole)
  from None show ?thesis by (simp add: cleanCompletion_def Let_def fn)
next
  case (Some g)
  from cleanCompletion_console[OF Some, of language] Some show ?thesis by simp
qed

text \<open>
  Two more ways in which a second application changes the text.  In \<open>javascript\<close> the
  removal of types can leave a type behind: in \<open>: a: b\<close> the first annotation is followed by
  a colon and stays, the second one goes, and then the first one is followed by a space.
  And the collapse to one \<open>console.log\<close> call puts double quotes around an argument that
  may itself hold a double quote and a closing parenthesis.
\<close>

lemma stripTypes_leaves_a_type:
  "cleanCompletion ''javascript'' '': a: b '' = '': a ''
   \<and> cleanCompletion ''javascript'' (cleanCompletion ''javascript'' '': a: b '') = '' ''"
  by code_simp

lemma collapse_of_a_quoted_argument:
  "cleanCompletion language (''console.log('' @ [squote] @ ''a'' @ [dquote] @ '')b'' @ [squote] @ '')'')
     = ''console.log('' @ [dquote] @ ''a'' @ [dquote] @ '')b'' @ [dquote] @ '')''
   \<and> cleanCompletion language
        (cleanCompletion language (''console.log('' @ [squote] @ ''a'' @ [dquote] @ '')b'' @ [squote] @ '')''))
     = ''console.log('' @ [dquote] @ ''a'' @ [dquote] @ '')''"
proof -
  define x where "x = ''console.log('' @ [squote] @ ''a'' @ [dquote] @ '')b'' @ [squote] @ '')''"
  define y where "y = ''console.log('' @ [dquote] @ ''a'' @ [dquote] @ '')b'' @ [dquote] @ '')''"
  have 1: "consoleLogMatch (stripMarkup x) = Some (''a'' @ [dquote] @ '')b'')"
    unfolding x_def by code_simp
  have 2: "consoleLogMatch (stripMarkup y) = Some ''a''"
    unfolding y_def by code_simp
  from cleanCompletion_console[OF 1, of language] have 3: "cleanCompletion language x = y"
    by (simp add: y_def)
  from cleanCompletion_console[OF 2, of language]
  have 4: "cleanCompletion language y = ''console.log('' @ [dquote] @ ''a'' @ [dquote] @ '')''" .
  from 3 4 show ?thesis unfolding x_def y_def by simp
qed

text \<open>
  Claim C3, amended.  Take any text of the model and let the first output be what
  \<open>cleanCompletion\<close> makes of it: the collapsed \<open>console.log\<close> call when the pattern finds
  a call in the text without its markup (code fences, line breaks at the two ends, comment
  lines), and otherwise that text, for \<open>javascript\<close> without its types.  Suppose that, when the collapse to one \<open>console.log\<close>
  call fires, its argument does not hold a double quote followed by a closing
  parenthesis; and that, when it does not fire and the current language is \<open>javascript\<close>,
  the removal of types has left nothing behind that a replacement matches: the first
  output holds no code fence, no comment line, no \<open>console.log\<close> call that the pattern
  finds, and no type that the removal of types would take out.  (When the language is
  not \<open>javascript\<close>, the first output never holds a code fence or a comment line.)

  Then a second application removes the line breaks at the two ends of the first
  output, which the removal of comment lines can have left there, and nothing else.  So
  two applications equal one exactly when the first output neither begins nor ends with
  a line break, and three applications always equal two.
\<close>

theorem cleanCompletion_twice:
  assumes "case consoleLogMatch (stripMarkup x) of
             None \<Rightarrow> True
           | Some g \<Rightarrow> \<not> includes_str g [dquote, CHR '')'']"
    and "language = ''javascript'' \<longrightarrow> consoleLogMatch (stripMarkup x) = None \<longrightarrow>
           \<not> includes_str (cleanCompletion language x) [backtick, backtick, backtick]
           \<and> stripLineComments True (cleanCompletion language x) = cleanCompletion language x
           \<and> consoleLogMatch (cleanCompletion language x) = None
           \<and> stripTypes (cleanCompletion language x) = cleanCompletion language x"
  shows "cleanCompletion language x
           = (case consoleLogMatch (stripMarkup x) of
                Some g \<Rightarrow> ''console.log('' @ [dquote] @ g @ [dquote] @ '')''
              | None \<Rightarrow> if language = ''javascript'' then stripTypes (stripMarkup x)
                        else stripMarkup x)
         \<and> cleanCompletion language (cleanCompletion language x)
           = stripTrailingNewlines (stripLeadingNewlines (cleanCompletion language x))
         \<and> (cleanCompletion language (cleanCompletion language x) = cleanCompletion language x
              \<longleftrightarrow> stripTrailingNewlines (stripLeadingNewlines (cleanCompletion language x))
                    = cleanCompletion language x)
         \<and> cleanCompletion language (cleanCompletion language (cleanCompletion language x))
             = cleanCompletion language (cleanCompletion language x)"
proof -
  define y where "y = cleanCompletion language x"
  define w where "w = stripTrailingNewlines (stripLeadingNewlines y)"
  have "cleanCompletion language y = w \<and> cleanCompletion language w = w"
  proof (cases "consoleLogMatch (stripMarkup x)")
    case (Some g)
    with assms(1) have q: "\<not> includes_str g [dquote, CHR '')'']" by simp
    have y: "y = ''console.log('' @ [dquote] @ g @ [dquote] @ '')''"
      unfolding y_def using cleanCompletion_console[OF Some, of language] by simp
    note grp = consoleLogMatch_group[OF Some]
    from stripMarkup_clean(1)[of x] grp(2) have nf: "\<not> sublist [backtick, backtick, backtick] g"
      by (auto simp: includes_str_sublist dest: sublist_order.order_trans)
    from cleanCompletion_collapsed(2)[OF grp(3) nf q] have wy: "w = y"
      unfolding w_def y by simp
    from cleanCompletion_collapsed(1)[OF grp(3) nf q, of language]
    have "cleanCompletion language y = y" unfolding y by simp
    with wy show ?thesis by simp
  next
    case None
    have a: "\<not> includes_str y [backtick, backtick, backtick]
             \<and> stripLineComments True y = y
             \<and> consoleLogMatch y = None
             \<and> (language = ''javascript'' \<longrightarrow> stripTypes y = y)"
    proof (cases "language = ''javascript''")
      case True
      with assms(2) None show ?thesis unfolding y_def by blast
    next
      case False
      from cleanCompletion_no_console[OF None False] have "y = stripMarkup x" by (simp add: y_def)
      with stripMarkup_clean[of x] None False show ?thesis by simp
    qed
    then have nf: "\<not> includes_str y [backtick, backtick, backtick]"
      and cf: "stripLineComments True y = y" and cl: "consoleLogMatch y = None"
      and ty: "language = ''javascript'' \<longrightarrow> stripTypes y = y"
      by blast+
    have 1: "cleanCompletion language y = w"
      unfolding w_def by (rule cleanCompletion_on_clean[OF nf cf cl ty])
    have sub: "sublist w y" unfolding w_def by (rule sublist_strip_newlines)
    from nf sub have nf': "\<not> includes_str w [backtick, backtick, backtick]"
      by (auto simp: includes_str_sublist dest: sublist_order.order_trans)
    have cf': "stripLineComments True w = w"
      unfolding w_def
      by (intro stripLineComments_fixed_trailing stripLineComments_fixed_leading cf)
    have cl': "consoleLogMatch w = None" by (rule consoleLogMatch_sublist[OF sub cl])
    have ty': "language = ''javascript'' \<longrightarrow> stripTypes w = w"
    proof
      assume "language = ''javascript''"
      with ty have "stripTypes y = y" by simp
      then show "stripTypes w = w" using sub by (rule stripTypes_fixed_sublist)
    qed
    have "cleanCompletion language w = stripTrailingNewlines (stripLeadingNewlines w)"
      by (rule cleanCompletion_on_clean[OF nf' cf' cl' ty'])
    also have "\<dots> = w" unfolding w_def by (rule strip_newlines_twice)
    finally show ?thesis using 1 by simp
  qed
  then have "cleanCompletion language (cleanCompletion language x)
           = stripTrailingNewlines (stripLeadingNewlines (cleanCompletion language x))
         \<and> (cleanCompletion language (cleanCompletion language x) = cleanCompletion language x
              \<longleftrightarrow> stripTrailingNewlines (stripLeadingNewlines (cleanCompletion language x))
                    = cleanCompletion language x)
         \<and> cleanCompletion language (cleanCompletion language (cleanCompletion language x))
             = cleanCompletion language (cleanCompletion language x)"
    unfolding w_def y_def by simp
  with cleanCompletion_cases[of language x] show ?thesis by (rule conjI)
qed

theorem cleanCompletion_twice_witness:
  "consoleLogMatch
     (stripMarkup ([backtick, backtick, backtick] @ ''typescript'' @ [newline] @ ''// sum'' @ [newline]
                   @ ''const x: number = 5;'' @ [newline] @ [backtick, backtick, backtick])) = None
   \<and> cleanCompletion ''javascript''
        ([backtick, backtick, backtick] @ ''typescript'' @ [newline] @ ''// sum'' @ [newline]
         @ ''const x: number = 5;'' @ [newline] @ [backtick, backtick, backtick])
       = [newline] @ ''const x = 5;''
   \<and> \<not> includes_str ([newline] @ ''const x = 5;'') [backtick, backtick, backtick]
   \<and> stripLineComments True ([newline] @ ''const x = 5;'') = [newline] @ ''const x = 5;''
   \<and> consoleLogMatch ([newline] @ ''const x = 5;'') = None
   \<and> stripTypes ([newline] @ ''const x = 5;'') = [newline] @ ''const x = 5;''
   \<and> cleanCompletion ''javascript'' ([newline] @ ''const x = 5;'') = ''const x = 5;''
   \<and> cleanCompletion ''javascript'' ''const x = 5;'' = ''const x = 5;''"
proof -
  define x where "x = [backtick, backtick, backtick] @ ''typescript'' @ [newline] @ ''// sum'' @ [newline]
                   @ ''const x: number = 5;'' @ [newline] @ [backtick, backtick, backtick]"
  define y where "y = [newline] @ ''const x = 5;''"
  have c: "consoleLogMatch (stripMarkup x) = None" unfolding x_def by code_simp
  have f: "cleanCompletion ''javascript'' x = y" unfolding x_def y_def by code_simp
  have a1: "\<not> includes_str y [backtick, backtick, backtick]" unfolding y_def by code_simp
  have a2: "stripLineComments True y = y" unfolding y_def by code_simp
  have a3: "consoleLogMatch y = None" unfolding y_def by code_simp
  have a4: "stripTypes y = y" unfolding y_def by code_simp
  have s: "stripTrailingNewlines (stripLeadingNewlines y) = ''const x = 5;''"
    unfolding y_def by code_simp
  from c have h1: "case consoleLogMatch (stripMarkup x) of
             None \<Rightarrow> True
           | Some g \<Rightarrow> \<not> includes_str g [dquote, CHR '')'']"
    by simp
  from a1 a2 a3 a4 have h2: "''javascript'' = ''javascript'' \<longrightarrow> consoleLogMatch (stripMarkup x) = None \<longrightarrow>
           \<not> includes_str (cleanCompletion ''javascript'' x) [backtick, backtick, backtick]
           \<and> stripLineComments True (cleanCompletion ''javascript'' x) = cleanCompletion ''javascript'' x
           \<and> consoleLogMatch (cleanCompletion ''javascript'' x) = None
           \<and> stripTypes (cleanCompletion ''javascript'' x) = cleanCompletion ''javascript'' x"
    unfolding f by blast
  from cleanCompletion_twice[OF h1 h2]
  have t2: "cleanCompletion ''javascript'' (cleanCompletion ''javascript'' x)
              = stripTrailingNewlines (stripLeadingNewlines (cleanCompletion ''javascript'' x))"
    and t3: "cleanCompletion ''javascript'' (cleanCompletion ''javascript'' (cleanCompletion ''javascript'' x))
              = cleanCompletion ''javascript'' (cleanCompletion ''javascript'' x)"
    by blast+
  from t2 t3 have "cleanCompletion ''javascript'' y = ''const x = 5;''"
    and "cleanCompletion ''javascript'' (cleanCompletion ''javascript'' y)
           = cleanCompletion ''javascript'' y"
    unfolding f s by blast+
  then have "cleanCompletion ''javascript'' y = ''const x = 5;''"
    and "cleanCompletion ''javascript'' ''const x = 5;'' = ''const x = 5;''"
    by simp_all
  with c f a1 a2 a3 a4 show ?thesis unfolding x_def y_def by blast
qed

section \<open>The early return\<close>

text \<open>
  Claim C10: when the timer of an invocation fires, the collected comment context is
  empty, the cursor line is not blank and the text in front of the cursor has fewer than
  two characters after trimming, the debounced function returns the empty list at once:
  it does not reach the HTTP call, and the provider is as before (no language stored, no
  analysis run, no prompt built, no cancel token created).
\<close>

theorem early_return_without_request:
  assumes "line p < length (text_lines d)"
    and "getContextFromComments d p = Inr []"
    and "trim (text_lines d ! line p) \<noteq> []"
    and "length (trim (substring0 (text_lines d ! line p) (character p))) < 2"
  shows "completionUntilRequest s k d p = (s, Settled (Inr []))"
  using assms by (simp add: completionUntilRequest_def lineAt_valid)

theorem early_return_without_request_witness:
  "line \<lparr>line = 0, character = 1\<rparr> < length (text_lines short_document)
   \<and> getContextFromComments short_document \<lparr>line = 0, character = 1\<rparr> = Inr []
   \<and> trim (text_lines short_document ! line \<lparr>line = 0, character = 1\<rparr>) \<noteq> []
   \<and> length (trim (substring0 (text_lines short_document ! line \<lparr>line = 0, character = 1\<rparr>)
                     (character \<lparr>line = 0, character = 1\<rparr>))) < 2
   \<and> completionUntilRequest new_provider 0 short_document \<lparr>line = 0, character = 1\<rparr>
       = (new_provider, Settled (Inr []))"
proof -
  have h1: "line \<lparr>line = 0, character = 1\<rparr> < length (text_lines short_document)"
    by code_simp
  have h2: "getContextFromComments short_document \<lparr>line = 0, character = 1\<rparr> = Inr []"
    by code_simp
  have h3: "trim (text_lines short_document ! line \<lparr>line = 0, character = 1\<rparr>) \<noteq> []"
    by code_simp
  have h4: "length (trim (substring0 (text_lines short_document ! line \<lparr>line = 0, character = 1\<rparr>)
                     (character \<lparr>line = 0, character = 1\<rparr>))) < 2"
    by code_simp
  from early_return_without_request[OF h1 h2 h3 h4] h1 h2 h3 h4 show ?thesis by blast
qed

section \<open>The suggestion for a blank line under a comment\<close>

text \<open>
  Claim C4 says that a sanitized completion that is empty, or equal to the text typed in
  front of the cursor, yields the empty list also when the cursor line is blank and
  comment context is present.  On that path the code returns before it makes the test:
  for a blank cursor line under the comment \<open>// add two numbers\<close> and a model that
  answers with a line comment, which the sanitizer removes, the result is one suggestion
  with the empty text (which is also the text in front of the cursor), not the empty
  list.
\<close>

theorem blank_line_comment_returns_empty_item:
  "snd (debouncedCompletion new_provider 0 comment_document \<lparr>line = 1, character = 0\<rparr>
          (Fulfilled (Choices [Str ''// nothing''])))
   = Inr [\<lparr>insertText = [],
           item_range = (\<lparr>line = 1, character = 0\<rparr>, \<lparr>line = 1, character = 0\<rparr>)\<rparr>]"
  by code_simp

text \<open>
  On that path every non-empty answer of the model yields one suggestion, whatever the
  sanitized text is; on the other path the test is made.
\<close>

lemma blank_line_comment_path:
  assumes "rq_isEmptyLine rq" and "rq_commentContext rq \<noteq> []" and "raw \<noteq> []"
  shows "snd (handleResponse s rq (Choices (Str raw # others)))
         = Inr [\<lparr>insertText = sanitizeCompletion (currentLanguage s) (rq_currentLineUptoCursor rq) raw,
                 item_range = (rq_position rq, rq_position rq)\<rparr>]"
  using assms by (simp add: handleResponse_def Let_def)

lemma general_path_tests_emptiness:
  assumes "\<not> (rq_isEmptyLine rq \<and> rq_commentContext rq \<noteq> [])"
    and "sanitizeCompletion (currentLanguage s) (rq_currentLineUptoCursor rq) raw = rq_currentLineUptoCursor rq
         \<or> trim (sanitizeCompletion (currentLanguage s) (rq_currentLineUptoCursor rq) raw) = []"
  shows "snd (handleResponse s rq (Choices (Str raw # others))) = Inr []"
  using assms by (auto simp: handleResponse_def Let_def)

section \<open>Prepending the typed prefix\<close>

text \<open>
  Claim C5, as stated, has the typed prefix prepended whenever the sanitized completion
  does not start with it.  The code tests the completion against the prefix with its
  leading white space removed: on the line \<open>  fo\<close> with the cursor at its end, the
  completion \<open>foo()\<close> does not start with the prefix, nothing is prepended, and the text
  paired with the range from the start of the line does not begin with the prefix.
\<close>

theorem indented_prefix_not_prepended:
  "snd (debouncedCompletion new_provider 0 indented_document \<lparr>line = 0, character = 4\<rparr>
          (Fulfilled (Choices [Str ''foo()''])))
     = Inr [\<lparr>insertText = ''foo()'',
             item_range = (\<lparr>line = 0, character = 0\<rparr>, \<lparr>line = 0, character = 4\<rparr>)\<rparr>]
   \<and> substring0 (text_lines indented_document ! 0) 4 = ''  fo''
   \<and> sanitizeCompletion (detectLanguage indented_document) ''  fo'' ''foo()'' = ''foo()''
   \<and> \<not> startsWith ''foo()'' ''  fo''"
  by code_simp

text \<open>
  Claim C5, amended: for every returned suggestion outside the case of a blank line with
  comment context, the range runs from the start of the cursor line to the cursor; if
  the sanitized completion does not start with the typed prefix \<^emph>\<open>without its leading
  white space\<close>, the typed prefix (as typed) is prepended, and otherwise the completion
  is returned as it is.  So the text begins with the typed prefix, or with the typed
  prefix without its leading white space.
\<close>

theorem prefix_prepended_unless_trimmed_prefix_present:
  assumes "line p < length (text_lines d)"
    and "\<not> (trim (text_lines d ! line p) = [] \<and> getContextFromComments d p \<noteq> Inr [])"
    and "snd (debouncedCompletion s k d p (Fulfilled (Choices (Str raw # others)))) = Inr [item]"
  shows "item_range item = (\<lparr>line = line p, character = 0\<rparr>, p)
     \<and> insertText item =
         (let currentLineUptoCursor = substring0 (text_lines d ! line p) (character p);
              completion = sanitizeCompletion (detectLanguage d) currentLineUptoCursor raw
          in if startsWith completion (trimLeft currentLineUptoCursor) then completion
             else currentLineUptoCursor @ completion)
     \<and> (startsWith (insertText item) (substring0 (text_lines d ! line p) (character p))
         \<or> startsWith (insertText item) (trimLeft (substring0 (text_lines d ! line p) (character p))))"
  using assms(1)
proof (cases rule: completionUntilRequest_cases[where s = s and k = k])
  case early
  with assms(3) show ?thesis by (simp add: debouncedCompletion_def)
next
  case (request cc f sys pr)
  from assms(2) request(1) have general: "\<not> (trim (text_lines d ! line p) = [] \<and> cc \<noteq> [])"
    by simp
  define cur where "cur = substring0 (text_lines d ! line p) (character p)"
  define completion where "completion = sanitizeCompletion (detectLanguage d) cur raw"
  have item: "item = \<lparr>insertText = (if startsWith completion (trimLeft cur) then completion
                                      else cur @ completion),
                       item_range = (\<lparr>line = line p, character = 0\<rparr>, p)\<rparr>"
    using assms(3) general
    by (auto simp: debouncedCompletion_def request(2) completionAfterResponse_def
          handleResponse_def Let_def cur_def completion_def catchError_def
          split: if_splits)
  show ?thesis
    by (auto simp: item Let_def cur_def[symmetric] completion_def[symmetric] startsWith_def)
qed

theorem prefix_prepended_unless_trimmed_prefix_present_witness:
  "line \<lparr>line = 0, character = 4\<rparr> < length (text_lines indented_document)
   \<and> trim (text_lines indented_document ! line \<lparr>line = 0, character = 4\<rparr>) \<noteq> []
   \<and> snd (debouncedCompletion new_provider 0 indented_document \<lparr>line = 0, character = 4\<rparr>
            (Fulfilled (Choices [Str ''bar()''])))
       = Inr [\<lparr>insertText = ''  fobar()'',
               item_range = (\<lparr>line = 0, character = 0\<rparr>, \<lparr>line = 0, character = 4\<rparr>)\<rparr>]
   \<and> (startsWith
         (insertText \<lparr>insertText = ''  fobar()'',
               item_range = (\<lparr>line = 0, character = 0\<rparr>, \<lparr>line = 0, character = 4\<rparr>)\<rparr>)
         (substring0 (text_lines indented_document ! line \<lparr>line = 0, character = 4\<rparr>)
            (character \<lparr>line = 0, character = 4\<rparr>))
       \<or> startsWith
         (insertText \<lparr>insertText = ''  fobar()'',
               item_range = (\<lparr>line = 0, character = 0\<rparr>, \<lparr>line = 0, character = 4\<rparr>)\<rparr>)
         (trimLeft (substring0 (text_lines indented_document ! line \<lparr>line = 0, character = 4\<rparr>)
            (character \<lparr>line = 0, character = 4\<rparr>))))"
proof -
  have h1: "line \<lparr>line = 0, character = 4\<rparr> < length (text_lines indented_document)"
    by code_simp
  have h2: "trim (text_lines indented_document ! line \<lparr>line = 0, character = 4\<rparr>) \<noteq> []"
    by code_simp
  have h3: "snd (debouncedCompletion new_provider 0 indented_document \<lparr>line = 0, character = 4\<rparr>
            (Fulfilled (Choices [Str ''bar()''])))
       = Inr [\<lparr>insertText = ''  fobar()'',
               item_range = (\<lparr>line = 0, character = 0\<rparr>, \<lparr>line = 0, character = 4\<rparr>)\<rparr>]"
    by code_simp
  from h2 have h2': "\<not> (trim (text_lines indented_document ! line \<lparr>line = 0, character = 4\<rparr>) = []
      \<and> getContextFromComments indented_document \<lparr>line = 0, character = 4\<rparr> \<noteq> Inr [])"
    by blast
  from prefix_prepended_unless_trimmed_prefix_present[OF h1 h2' h3] h1 h2 h3
  show ?thesis by blast
qed

section \<open>Completing an open \<open>console.log("\<close>\<close>

lemma cleanCompletion_hello: "cleanCompletion language ''hello'' = ''hello''"
proof -
  have 1: "stripMarkup ''hello'' = ''hello''" by code_simp
  have 2: "\<not> includes_str ''hello'' ''function''" by code_simp
  have 3: "\<not> includes_str ''hello'' ''console.log(''" by code_simp
  have 4: "stripTypes ''hello'' = ''hello''" by code_simp
  show ?thesis by (simp add: cleanCompletion_def Let_def 1 2 3 4)
qed

lemma sanitizeCompletion_hello:
  "sanitizeCompletion language (''console.log('' @ [dquote]) ''hello'' = ''hello'' @ [dquote] @ '')''"
proof -
  have "closeConsoleLog (''console.log('' @ [dquote]) (trimLeft (crlfToLf ''hello''))
          = ''hello'' @ [dquote] @ '')''"
    by code_simp
  then show ?thesis by (simp add: sanitizeCompletion_def cleanCompletion_hello)
qed

text \<open>
  Claim C7: when the cursor line up to the cursor is \<open>console.log("\<close> and the model
  returns the text \<open>hello\<close>, the suggestion is exactly \<open>console.log("hello")\<close>, replacing
  the line from its start to the cursor.  This holds for every document and position of
  that shape, every language, every state of the provider, and whatever choices follow
  the first one in the response.
\<close>

theorem console_log_hello:
  assumes "line p < length (text_lines d)"
    and "substring0 (text_lines d ! line p) (character p) = ''console.log('' @ [dquote]"
  shows "snd (debouncedCompletion s k d p (Fulfilled (Choices (Str ''hello'' # others))))
         = Inr [\<lparr>insertText = ''console.log('' @ [dquote] @ ''hello'' @ [dquote] @ '')'',
                 item_range = (\<lparr>line = line p, character = 0\<rparr>, p)\<rparr>]"
  using assms(1)
proof (cases rule: completionUntilRequest_cases[where s = s and k = k])
  case early
  have "length (trim (''console.log('' @ [dquote])) = 13" by code_simp
  with early(2) assms(2) show ?thesis by simp
next
  case (request cc f sys pr)
  have "CHR ''c'' \<in> set (take (character p) (text_lines d ! line p))"
    using assms(2) by (simp add: substring0_def)
  then have "CHR ''c'' \<in> set (text_lines d ! line p)"
    by (rule in_set_takeD)
  moreover have "\<not> isSpace (CHR ''c'')" by code_simp
  ultimately have nonblank: "trim (text_lines d ! line p) \<noteq> []"
    by (auto simp: trim_Nil_iff)
  define cur where "cur = ''console.log('' @ [dquote]"
  define out where "out = ''hello'' @ [dquote] @ '')''"
  have a2: "substring0 (text_lines d ! line p) (character p) = cur"
    using assms(2) by (simp add: cur_def)
  have s: "sanitizeCompletion (detectLanguage d) cur ''hello'' = out"
    unfolding cur_def out_def by (rule sanitizeCompletion_hello)
  have f1: "out \<noteq> cur" unfolding cur_def out_def by code_simp
  have f2: "trim out \<noteq> []" unfolding out_def by code_simp
  have f3: "\<not> startsWith out (trimLeft cur)" unfolding cur_def out_def by code_simp
  have "snd (debouncedCompletion s k d p (Fulfilled (Choices (Str ''hello'' # others))))
         = Inr [\<lparr>insertText = cur @ out, item_range = (\<lparr>line = line p, character = 0\<rparr>, p)\<rparr>]"
    by (simp add: debouncedCompletion_def request(2) completionAfterResponse_def
          handleResponse_def Let_def a2 nonblank s f1 f2 f3)
  then show ?thesis by (simp add: cur_def out_def)
qed

theorem console_log_hello_witness:
  "line \<lparr>line = 0, character = 13\<rparr> < length (text_lines console_document)
   \<and> substring0 (text_lines console_document ! line \<lparr>line = 0, character = 13\<rparr>)
        (character \<lparr>line = 0, character = 13\<rparr>) = ''console.log('' @ [dquote]
   \<and> snd (debouncedCompletion new_provider 0 console_document \<lparr>line = 0, character = 13\<rparr>
            (Fulfilled (Choices [Str ''hello''])))
       = Inr [\<lparr>insertText = ''console.log('' @ [dquote] @ ''hello'' @ [dquote] @ '')'',
               item_range = (\<lparr>line = line \<lparr>line = 0, character = 13\<rparr>, character = 0\<rparr>,
                             \<lparr>line = 0, character = 13\<rparr>)\<rparr>]"
proof -
  have h1: "line \<lparr>line = 0, character = 13\<rparr> < length (text_lines console_document)"
    by code_simp
  have h2: "substring0 (text_lines console_document ! line \<lparr>line = 0, character = 13\<rparr>)
        (character \<lparr>line = 0, character = 13\<rparr>) = ''console.log('' @ [dquote]"
    by code_simp
  from console_log_hello[OF h1 h2, of new_provider 0 "[]"] h1 h2 show ?thesis by blast
qed

section \<open>The intent taken from a comment\<close>

text \<open>
  The comment scan on a blank cursor line whose only comment line above is
  \<open>// add two numbers\<close>: the line is collected trimmed and with a line break behind it.
\<close>

lemma getContextFromComments_single_comment:
  assumes "line p = Suc n"
    and "Suc n < length (text_lines d)"
    and "trim (text_lines d ! Suc n) = []"
    and "trim (text_lines d ! n) = ''// add two numbers''"
    and "n = 0 \<or> \<not> startsWith (trim (text_lines d ! (n - 1))) ''//''"
  shows "getContextFromComments d p = Inr (''// add two numbers'' @ [newline])"
proof -
  have l1: "lineAt d (1 + int n) = Inr (text_lines d ! Suc n)"
    using assms(2) by (simp add: lineAt_def nat_add_distrib)
  have l0: "lineAt d (int n) = Inr (text_lines d ! n)"
    using assms(2) by (simp add: lineAt_def)
  have c: "startsWith ''// add two numbers'' ''//''"
    by (simp add: startsWith_def)
  have step1: "getContextLoop d p (1 + int n) [] = getContextLoop d p (int n) []"
    by (subst getContextLoop.simps) (simp add: assms(1,3) l1 startsWith_def)
  define ctx where "ctx = ''// add two numbers'' @ [newline]"
  have ne: "ctx \<noteq> []" by (simp add: ctx_def)
  have step2: "getContextLoop d p (int n) [] = getContextLoop d p (int n - 1) ctx"
    by (subst getContextLoop.simps) (simp add: assms(1,4) l0 c ctx_def)
  have step3: "getContextLoop d p (int n - 1) ctx = Inr ctx"
  proof (cases "n = 0")
    case True
    then show ?thesis by (subst getContextLoop.simps) simp
  next
    case False
    then have idx: "int n - 1 = int (n - 1)" by simp
    have l: "lineAt d (int (n - 1)) = Inr (text_lines d ! (n - 1))"
      using assms(2) by (simp add: lineAt_def)
    from False assms(5) have nc: "\<not> startsWith (trim (text_lines d ! (n - 1))) ''//''"
      by simp
    show ?thesis
      unfolding idx by (subst getContextLoop.simps) (use l nc ne assms(1) False in simp)
  qed
  have "getContextFromComments d p = Inr ctx"
    by (simp add: getContextFromComments_def assms(1) step1 step2 step3)
  then show ?thesis by (simp add: ctx_def)
qed

text \<open>
  Claim C6: when the cursor line is blank and the comment lines immediately above it
  consist of the one line \<open>// add two numbers\<close> (white space around it aside), the
  intent of the analysis, trimmed, is the string \<open>// add two numbers\<close>, and it is not the
  fallback \<open>Continue the logical flow\<close>.  Untrimmed, the intent is that string followed
  by the one line break that the scan puts behind every line it collects.
\<close>

theorem codeIntent_from_comment:
  assumes "line p = Suc n"
    and "Suc n < length (text_lines d)"
    and "trim (text_lines d ! Suc n) = []"
    and "trim (text_lines d ! n) = ''// add two numbers''"
    and "n = 0 \<or> \<not> startsWith (trim (text_lines d ! (n - 1))) ''//''"
  shows "\<exists>a. snd (analyzeCodeBlock s d p) = Inr a
           \<and> codeIntent a = ''// add two numbers'' @ [newline]
           \<and> trim (codeIntent a) = ''// add two numbers''
           \<and> codeIntent a \<noteq> ''Continue the logical flow''"
proof -
  have t: "trim (''// add two numbers'' @ [newline]) = ''// add two numbers''"
    by code_simp
  have n: "''// add two numbers'' @ [newline] \<noteq> ''Continue the logical flow''"
    by simp
  show ?thesis
    using t n
    by (simp add: analyzeCodeBlock_def Let_def getContextFromComments_single_comment[OF assms])
qed

theorem codeIntent_from_comment_witness:
  "line \<lparr>line = 1, character = 0\<rparr> = Suc 0
   \<and> Suc 0 < length (text_lines comment_document)
   \<and> trim (text_lines comment_document ! Suc 0) = []
   \<and> trim (text_lines comment_document ! 0) = ''// add two numbers''
   \<and> (\<exists>a. snd (analyzeCodeBlock new_provider comment_document \<lparr>line = 1, character = 0\<rparr>) = Inr a
           \<and> codeIntent a = ''// add two numbers'' @ [newline]
           \<and> trim (codeIntent a) = ''// add two numbers''
           \<and> codeIntent a \<noteq> ''Continue the logical flow'')"
proof -
  have h1: "line \<lparr>line = 1, character = 0\<rparr> = Suc 0" by simp
  have h2: "Suc 0 < length (text_lines comment_document)" by code_simp
  have h3: "trim (text_lines comment_document ! Suc 0) = []" by code_simp
  have h4: "trim (text_lines comment_document ! 0) = ''// add two numbers''" by code_simp
  have h5: "(0::nat) = 0 \<or> \<not> startsWith (trim (text_lines comment_document ! (0 - 1))) ''//''"
    by simp
  from codeIntent_from_comment[OF h1 h2 h3 h4 h5, of new_provider] h1 h2 h3 h4
  show ?thesis by blast
qed

section \<open>The usage prompt for a function just declared\<close>

lemma nameParamsMatch_add:
  "nameParamsMatch ''function add(a: number, b: number)'' = Some (''add'', ''a: number, b: number'')"
  by code_simp

lemma params_add:
  "map trim (split_at (CHR '','') ''a: number, b: number'') = [''a: number'', ''b: number'']"
  by code_simp

lemma usagePrompt_add:
  "usagePrompt \<lparr>fn_name = ''add'', fn_params = [''a: number'', ''b: number''], fn_line = l\<rparr>
     = join [newline]
         [''Function add was just defined.'',
          ''Generate example usage and test cases.'',
          ''// Example usage:'',
          ''add(42, 42);'',
          [],
          ''// Test cases:'',
          ''console.log(add(42, 42));'']"
proof -
  have 1: "exampleParam ''a: number'' = ''42''" by code_simp
  have 2: "exampleParam ''b: number'' = ''42''" by code_simp
  show ?thesis
    by (simp add: usagePrompt_def generateFunctionUsageExample_def 1 2)
qed

text \<open>
  Claim C8, as stated, asks only that the window contains the declaration of \<open>add\<close>, with
  the flag true and the cursor outside a comment.  The scan retains the \<^emph>\<open>last\<close> match of
  its pattern, and the pattern also matches a parenthesised initialiser: with
  \<open>const sum = (a + b);\<close> in the body of \<open>add\<close> and the cursor below the function, the
  window contains the declaration, the flag is true, the cursor is in no comment, and
  the prompt is the usage prompt for \<open>sum\<close> with the argument \<open>undefined\<close>.
\<close>

theorem later_match_takes_the_usage_prompt:
  "includes_str (contextWindow add_body_document \<lparr>line = 4, character = 0\<rparr>)
     ''function add(a: number, b: number)''
   \<and> windowDeclarations add_body_document \<lparr>line = 4, character = 0\<rparr>
       = [''function add(a: number, b: number)'', ''const sum = (a + b)'']
   \<and> map_sum id recentlyDefinedFunction
         (snd (analyzeCodeBlock new_provider add_body_document \<lparr>line = 4, character = 0\<rparr>))
       = Inr True
   \<and> isInsideComment add_body_document \<lparr>line = 4, character = 0\<rparr> = Inr False
   \<and> snd (buildCompletionPrompt new_provider add_body_document \<lparr>line = 4, character = 0\<rparr>
              [] [] ''typescript'')
       = Inr (join [newline]
                [''Function sum was just defined.'',
                 ''Generate example usage and test cases.'',
                 ''// Example usage:'',
                 ''sum(undefined);'',
                 [],
                 ''// Test cases:'',
                 ''console.log(sum(undefined));''])"
  by code_simp

text \<open>
  Claim C8, amended: when the last declaration with a parameter list that the scan finds
  in the window of 20 lines that ends at the cursor is \<open>function add(a: number, b: number)\<close>,
  the retained record is \<open>add\<close> with the parameters \<open>a: number\<close> and \<open>b: number\<close> and the
  line \<open>cursorLine - 1\<close> (so that the function counts as recently defined), and when the
  cursor is not in a comment position the prompt is the usage prompt for \<open>add\<close> with the
  argument literals \<open>42, 42\<close>.  This holds for every state of the provider and every
  language.
\<close>

theorem usage_prompt_for_add:
  assumes "line p < length (text_lines d)"
    and "windowDeclarations d p \<noteq> []"
    and "last (windowDeclarations d p) = ''function add(a: number, b: number)''"
    and "isInsideComment d p = Inr False"
  shows "lastDefinedFunction (fst (buildCompletionPrompt s d p currentLine commentContext language))
           = Some \<lparr>fn_name = ''add'', fn_params = [''a: number'', ''b: number''],
                   fn_line = int (line p) - 1\<rparr>
     \<and> snd (buildCompletionPrompt s d p currentLine commentContext language)
           = Inr (join [newline]
                    [''Function add was just defined.'',
                     ''Generate example usage and test cases.'',
                     ''// Example usage:'',
                     ''add(42, 42);'',
                     [],
                     ''// Test cases:'',
                     ''console.log(add(42, 42));''])"
proof -
  from getContextFromComments_Inr[OF assms(1)]
  obtain c where c: "getContextFromComments d p = Inr c" ..
  define f where "f = \<lparr>fn_name = ''add'', fn_params = [''a: number'', ''b: number''],
                        fn_line = int (line p) - 1\<rparr>"
  have an: "analyzeCodeBlock s d p
              = (s\<lparr>lastDefinedFunction := Some f\<rparr>,
                 Inr \<lparr>functionNames = map secondPiece (matchAll functionNameMatch (contextWindow d p)),
                      variables = map secondPiece (matchAll variableMatch (contextWindow d p)),
                      codeIntent = (if c \<noteq> [] then c else ''Continue the logical flow''),
                      recentlyDefinedFunction = True\<rparr>)"
  proof -
    define decl where "decl = ''function add(a: number, b: number)''"
    define ps where "ps = ''a: number, b: number''"
    have a3: "last (windowDeclarations d p) = decl"
      using assms(3) by (simp add: decl_def)
    have m: "nameParamsMatch decl = Some (''add'', ps)"
      unfolding decl_def ps_def by (rule nameParamsMatch_add)
    have pa: "map trim (split_at (CHR '','') ps) = [''a: number'', ''b: number'']"
      unfolding ps_def by (rule params_add)
    show ?thesis
      using assms(2)
      by (simp add: analyzeCodeBlock_def Let_def a3 m pa c f_def)
  qed
  have "usagePrompt f = join [newline]
         [''Function add was just defined.'',
          ''Generate example usage and test cases.'',
          ''// Example usage:'',
          ''add(42, 42);'',
          [],
          ''// Test cases:'',
          ''console.log(add(42, 42));'']"
    unfolding f_def by (rule usagePrompt_add)
  then show ?thesis
    by (simp add: buildCompletionPrompt_def an assms(4) f_def)
qed

theorem usage_prompt_for_add_witness:
  "line \<lparr>line = 1, character = 0\<rparr> < length (text_lines add_document)
   \<and> windowDeclarations add_document \<lparr>line = 1, character = 0\<rparr> \<noteq> []
   \<and> last (windowDeclarations add_document \<lparr>line = 1, character = 0\<rparr>)
        = ''function add(a: number, b: number)''
   \<and> isInsideComment add_document \<lparr>line = 1, character = 0\<rparr> = Inr False
   \<and> snd (buildCompletionPrompt new_provider add_document \<lparr>line = 1, character = 0\<rparr> [] [] ''typescript'')
        = Inr (join [newline]
                 [''Function add was just defined.'',
                  ''Generate example usage and test cases.'',
                  ''// Example usage:'',
                  ''add(42, 42);'',
                  [],
                  ''// Test cases:'',
                  ''console.log(add(42, 42));''])"
proof -
  have h1: "line \<lparr>line = 1, character = 0\<rparr> < length (text_lines add_document)"
    by code_simp
  have h2: "windowDeclarations add_document \<lparr>line = 1, character = 0\<rparr> \<noteq> []"
    by code_simp
  have h3: "last (windowDeclarations add_document \<lparr>line = 1, character = 0\<rparr>)
        = ''function add(a: number, b: number)''"
    by code_simp
  have h4: "isInsideComment add_document \<lparr>line = 1, character = 0\<rparr> = Inr False"
    by code_simp
  from usage_prompt_for_add[OF h1 h2 h3 h4, of new_provider "[]" "[]" "''typescript''"] h1 h2 h3 h4
  show ?thesis by blast
qed

section \<open>Facts about the scheduler\<close>

text \<open>What the two halves of the debounced function do to the provider.\<close>

lemma catchError_fields:
  "lastRequest (fst (catchError s e)) = lastRequest s
   \<and> debounceTimeout (fst (catchError s e)) = debounceTimeout s
   \<and> lastDefinedFunction (fst (catchError s e)) = lastDefinedFunction s"
  by (simp add: catchError_def)

lemma handleResponse_fields:
  "lastRequest (fst (handleResponse s rq data)) = lastRequest s
   \<and> debounceTimeout (fst (handleResponse s rq data)) = debounceTimeout s
   \<and> lastDefinedFunction (fst (handleResponse s rq data)) = lastDefinedFunction s"
  by (simp add: handleResponse_def Let_def split: response_data.splits js_value.splits list.splits)

lemma completionAfterResponse_fields:
  "lastRequest (fst (completionAfterResponse s rq res)) = lastRequest s
   \<and> debounceTimeout (fst (completionAfterResponse s rq res)) = debounceTimeout s
   \<and> lastDefinedFunction (fst (completionAfterResponse s rq res)) = lastDefinedFunction s"
proof (cases res)
  case (Failed e)
  then show ?thesis using catchError_fields[of s e] by (simp add: completionAfterResponse_def)
next
  case (Fulfilled data)
  obtain s' r where h: "handleResponse s rq data = (s', r)" by (cases "handleResponse s rq data")
  with handleResponse_fields[of s rq data]
  have s': "lastRequest s' = lastRequest s \<and> debounceTimeout s' = debounceTimeout s
            \<and> lastDefinedFunction s' = lastDefinedFunction s"
    by simp
  show ?thesis
  proof (cases r)
    case (Inl e)
    with h Fulfilled s' catchError_fields[of s' e] show ?thesis
      by (simp add: completionAfterResponse_def)
  next
    case (Inr items)
    with h Fulfilled s' show ?thesis
      by (simp add: completionAfterResponse_def)
  qed
qed

lemma completionAfterResponse_Cancel:
  "completionAfterResponse s rq (Failed (Cancel m)) = (s, [])"
  by (simp add: completionAfterResponse_def catchError_def)

lemma buildCompletionPrompt_fst:
  "fst (buildCompletionPrompt s d p cur cc lang) = fst (analyzeCodeBlock s d p)"
  by (simp add: buildCompletionPrompt_def split: prod.splits sum.splits)

lemma buildCompletionPrompt_fields:
  assumes "buildCompletionPrompt s d p cur cc lang = (s', r)"
  shows "lastRequest s' = lastRequest s" and "debounceTimeout s' = debounceTimeout s"
    and "lastDefinedFunction s' = lastDefinedFunction (fst (analyzeCodeBlock s d p))"
proof -
  from assms have "s' = fst (analyzeCodeBlock s d p)"
    using buildCompletionPrompt_fst[of s d p cur cc lang] by simp
  then show "lastRequest s' = lastRequest s" and "debounceTimeout s' = debounceTimeout s"
    and "lastDefinedFunction s' = lastDefinedFunction (fst (analyzeCodeBlock s d p))"
    by (simp_all add: analyzeCodeBlock_fst)
qed

text \<open>
  The first half leaves the timer handle alone; it writes the retained record only
  through the analysis; when it reaches the HTTP call it has stored the cancel token.
\<close>

lemma completionUntilRequest_debounceTimeout:
  "debounceTimeout (fst (completionUntilRequest s k d p)) = debounceTimeout s"
  by (auto simp: completionUntilRequest_def Let_def getLanguageContext_def catchError_def
           split: sum.splits prod.splits if_splits
           dest: buildCompletionPrompt_fields(2))

lemma completionUntilRequest_lastRequest:
  assumes "completionUntilRequest s k d p = (s', Awaiting rq)"
  shows "lastRequest s' = Some k"
  using assms
  by (auto simp: completionUntilRequest_def Let_def getLanguageContext_def catchError_def
           split: sum.splits prod.splits if_splits)

lemma completionUntilRequest_lastDefinedFunction:
  "lastDefinedFunction (fst (completionUntilRequest s k d p)) = lastDefinedFunction s
   \<or> lastDefinedFunction (fst (completionUntilRequest s k d p))
        = lastDefinedFunction (fst (analyzeCodeBlock (s\<lparr>currentLanguage := detectLanguage d\<rparr>) d p))"
  by (auto simp: completionUntilRequest_def Let_def getLanguageContext_def catchError_def
           split: sum.splits prod.splits if_splits
           dest: buildCompletionPrompt_fields(3))

text \<open>The steps of the run-time system under the single-flight invariant.\<close>

lemma run_append: "run rt (xs @ ys) = run (run rt xs) ys"
  by (simp add: run_def)

lemma run_Nil: "run rt [] = rt"
  by (simp add: run_def)

lemma run_Cons: "run rt (e # es) = run (step rt e) es"
  by (simp add: run_def)

lemma single_flight_new: "single_flight new_runtime"
  by (simp add: single_flight_def new_runtime_def)

lemma clearTimeout_state:
  assumes "single_flight rt"
  shows "timers (clearTimeout rt) = []"
    and "\<forall>x\<in>set (inflight (clearTimeout rt)). lastRequest (prov (clearTimeout rt)) = Some (fst x)"
    and "inflight (clearTimeout rt) = inflight rt"
    and "promises (clearTimeout rt) = promises rt"
    and "started (clearTimeout rt) = started rt"
    and "clock (clearTimeout rt) = clock rt"
  using assms
  by (auto simp: single_flight_def clearTimeout_def split: list.splits option.splits)

lemma nth_list_update_cases: "xs[i := v] ! j = xs ! j \<or> xs[i := v] ! j = v"
  by (cases "i < length xs") (auto simp: nth_list_update list_update_beyond not_less)

lemma cancelLastRequest_state:
  assumes "\<forall>x\<in>set (inflight rt). lastRequest (prov rt) = Some (fst x)"
  shows "inflight (cancelLastRequest rt) = []"
    and "timers (cancelLastRequest rt) = timers rt"
    and "started (cancelLastRequest rt) = started rt"
    and "clock (cancelLastRequest rt) = clock rt"
    and "length (promises (cancelLastRequest rt)) = length (promises rt)"
    and "inflight rt = [] \<Longrightarrow> promises (cancelLastRequest rt) = promises rt"
    and "promises (cancelLastRequest rt) ! j = promises rt ! j
         \<or> promises (cancelLastRequest rt) ! j = Resolved []"
proof -
  show "inflight (cancelLastRequest rt) = []"
  proof (cases "inflight rt")
    case Nil
    then show ?thesis
      by (simp add: cancelLastRequest_def completionAfterResponse_Cancel split: option.splits)
  next
    case (Cons x xs)
    with assms have r: "lastRequest (prov rt) = Some (fst x)" by simp
    from Cons have m: "map_of (inflight rt) (fst x) = Some (snd x)" by (cases x) simp
    from assms r have "filter (\<lambda>y. fst y \<noteq> fst x) (inflight rt) = []"
      by (auto simp: filter_empty_conv)
    then show ?thesis
      by (simp add: cancelLastRequest_def r m completionAfterResponse_Cancel)
  qed
  show "timers (cancelLastRequest rt) = timers rt"
    and "started (cancelLastRequest rt) = started rt"
    and "clock (cancelLastRequest rt) = clock rt"
    and "length (promises (cancelLastRequest rt)) = length (promises rt)"
    and "inflight rt = [] \<Longrightarrow> promises (cancelLastRequest rt) = promises rt"
    by (simp_all add: cancelLastRequest_def completionAfterResponse_Cancel split: option.splits)
  show "promises (cancelLastRequest rt) ! j = promises rt ! j
         \<or> promises (cancelLastRequest rt) ! j = Resolved []"
    using nth_list_update_cases[of "promises rt" _ "Resolved []" j]
    by (auto simp: cancelLastRequest_def completionAfterResponse_Cancel split: option.splits)
qed

lemma trigger_state:
  assumes "single_flight rt"
  shows "timers (trigger rt d p) = [(length (promises rt), clock rt + DEBOUNCE_DELAY, d, p)]"
    and "inflight (trigger rt d p) = []"
    and "started (trigger rt d p) = started rt"
    and "clock (trigger rt d p) = clock rt"
    and "length (promises (trigger rt d p)) = Suc (length (promises rt))"
    and "promises (trigger rt d p) ! length (promises rt) = Pending"
    and "inflight rt = [] \<Longrightarrow> promises (trigger rt d p) = promises rt @ [Pending]"
    and "j < length (promises rt) \<Longrightarrow>
           promises (trigger rt d p) ! j = promises rt ! j \<or> promises (trigger rt d p) ! j = Resolved []"
    and "single_flight (trigger rt d p)"
proof -
  note c = clearTimeout_state[OF assms]
  note l = cancelLastRequest_state[OF c(2)]
  show "timers (trigger rt d p) = [(length (promises rt), clock rt + DEBOUNCE_DELAY, d, p)]"
    and "inflight (trigger rt d p) = []"
    and "started (trigger rt d p) = started rt"
    and "clock (trigger rt d p) = clock rt"
    and "length (promises (trigger rt d p)) = Suc (length (promises rt))"
    by (simp_all add: trigger_def Let_def c l)
  show "promises (trigger rt d p) ! length (promises rt) = Pending"
    using l(5) c(4) by (simp add: trigger_def Let_def nth_append)
  show "inflight rt = [] \<Longrightarrow> promises (trigger rt d p) = promises rt @ [Pending]"
    using l(6) c(3,4) by (simp add: trigger_def Let_def)
  show "j < length (promises rt) \<Longrightarrow>
           promises (trigger rt d p) ! j = promises rt ! j \<or> promises (trigger rt d p) ! j = Resolved []"
    using l(7)[of j] l(5) c(4) by (simp add: trigger_def Let_def nth_append)
  show "single_flight (trigger rt d p)"
    by (simp add: single_flight_def trigger_def Let_def c l)
qed

lemma fire_state:
  "started (fire rt (k, due, d, p)) = started rt @ [k]"
  "timers (fire rt (k, due, d, p)) = timers rt"
  "clock (fire rt (k, due, d, p)) = clock rt"
  "debounceTimeout (prov (fire rt (k, due, d, p))) = debounceTimeout (prov rt)"
  "inflight rt = [] \<Longrightarrow>
     \<forall>x\<in>set (inflight (fire rt (k, due, d, p))). lastRequest (prov (fire rt (k, due, d, p))) = Some (fst x)"
proof -
  obtain s' r where c: "completionUntilRequest (prov rt) k d p = (s', r)"
    by (cases "completionUntilRequest (prov rt) k d p")
  from completionUntilRequest_debounceTimeout[of "prov rt" k d p] c
  have dt: "debounceTimeout s' = debounceTimeout (prov rt)" by simp
  show "started (fire rt (k, due, d, p)) = started rt @ [k]"
    and "timers (fire rt (k, due, d, p)) = timers rt"
    and "clock (fire rt (k, due, d, p)) = clock rt"
    and "debounceTimeout (prov (fire rt (k, due, d, p))) = debounceTimeout (prov rt)"
    using c dt by (simp_all add: fire_def split: progress.splits)
  show "inflight rt = [] \<Longrightarrow>
     \<forall>x\<in>set (inflight (fire rt (k, due, d, p))). lastRequest (prov (fire rt (k, due, d, p))) = Some (fst x)"
    using c completionUntilRequest_lastRequest[of "prov rt" k d p]
    by (auto simp: fire_def split: progress.splits)
qed

lemma elapse_not_due:
  assumes "\<forall>t\<in>set (timers rt). clock rt + n < fst (snd t)"
  shows "elapse rt n = rt\<lparr>clock := clock rt + n\<rparr>"
proof -
  from assms have 1: "filter (\<lambda>t. fst (snd t) \<le> clock rt + n) (timers rt) = []"
    by (auto simp: filter_empty_conv)
  from assms have 2: "filter (\<lambda>t. \<not> fst (snd t) \<le> clock rt + n) (timers rt) = timers rt"
    by (auto simp: filter_id_conv)
  show ?thesis by (simp add: elapse_def Let_def 1 2)
qed

lemma elapse_due:
  assumes "timers rt = [(k, due, d, p)]" and "due \<le> clock rt + n"
  shows "elapse rt n = fire (rt\<lparr>clock := clock rt + n, timers := []\<rparr>) (k, due, d, p)"
  using assms by (simp add: elapse_def Let_def)

lemma single_flight_elapse:
  assumes "single_flight rt"
  shows "single_flight (elapse rt n)"
proof (cases "timers rt")
  case Nil
  then have "elapse rt n = rt\<lparr>clock := clock rt + n\<rparr>" by (simp add: elapse_def Let_def)
  with assms Nil show ?thesis by (simp add: single_flight_def)
next
  case (Cons t ts)
  with assms have ts: "ts = []" and infl: "inflight rt = []"
    by (auto simp: single_flight_def split: list.splits)
  obtain k due d p where t: "t = (k, due, d, p)" by (cases t)
  show ?thesis
  proof (cases "due \<le> clock rt + n")
    case True
    with Cons ts t have e: "elapse rt n = fire (rt\<lparr>clock := clock rt + n, timers := []\<rparr>) (k, due, d, p)"
      by (intro elapse_due) simp_all
    from infl have "inflight (rt\<lparr>clock := clock rt + n, timers := []\<rparr>) = []" by simp
    from fire_state(5)[OF this, of k due d p] fire_state(2)[of "rt\<lparr>clock := clock rt + n, timers := []\<rparr>" k due d p]
    show ?thesis unfolding e by (simp add: single_flight_def)
  next
    case False
    with Cons ts t have "elapse rt n = rt\<lparr>clock := clock rt + n\<rparr>"
      by (intro elapse_not_due) simp
    with assms Cons ts show ?thesis by (simp add: single_flight_def)
  qed
qed

lemma single_flight_respond:
  assumes "single_flight rt"
  shows "single_flight (respond rt k res)"
proof (cases "map_of (inflight rt) k")
  case None
  with assms show ?thesis by (simp add: respond_def)
next
  case (Some rq)
  then have "inflight rt \<noteq> []" by auto
  with assms have t: "timers rt = []"
    and l: "\<forall>x\<in>set (inflight rt). lastRequest (prov rt) = Some (fst x)"
    by (auto simp: single_flight_def split: list.splits)
  obtain s' items where c: "completionAfterResponse (prov rt) rq res = (s', items)"
    by (cases "completionAfterResponse (prov rt) rq res")
  with completionAfterResponse_fields[of "prov rt" rq res]
  have "lastRequest s' = lastRequest (prov rt)" by simp
  with t l show ?thesis
    by (simp add: respond_def Some c single_flight_def)
qed

lemma single_flight_step: "single_flight rt \<Longrightarrow> single_flight (step rt e)"
  by (cases e) (simp_all add: trigger_state(9) single_flight_elapse single_flight_respond)

lemma single_flight_run: "single_flight rt \<Longrightarrow> single_flight (run rt evs)"
  by (induction evs arbitrary: rt) (simp_all add: run_Nil run_Cons single_flight_step)

text \<open>A trigger changes nothing of the provider but the timer handle.\<close>

lemma trigger_prov:
  "prov (trigger rt d p) = (prov rt)\<lparr>debounceTimeout := Some (length (promises rt))\<rparr>"
  by (simp add: trigger_def Let_def cancelLastRequest_def clearTimeout_def
        completionAfterResponse_Cancel split: option.splits)

text \<open>A retired invocation stays as it is, whatever happens.\<close>

lemma fire_retired:
  assumes "retired j rt" and "fst t \<noteq> j"
  shows "retired j (fire rt t)"
    and "promises (fire rt t) ! j = promises rt ! j"
    and "j \<in> set (started (fire rt t)) \<longleftrightarrow> j \<in> set (started rt)"
proof -
  obtain k due d p where t: "t = (k, due, d, p)" by (cases t)
  obtain s' r where c: "completionUntilRequest (prov rt) k d p = (s', r)"
    by (cases "completionUntilRequest (prov rt) k d p")
  show "retired j (fire rt t)"
    and "promises (fire rt t) ! j = promises rt ! j"
    and "j \<in> set (started (fire rt t)) \<longleftrightarrow> j \<in> set (started rt)"
    using assms t c by (auto simp: fire_def retired_def split: progress.splits)
qed

lemma foldl_fire_retired:
  assumes "retired j rt" and "j \<notin> fst ` set ts"
  shows "retired j (foldl fire rt ts)
         \<and> promises (foldl fire rt ts) ! j = promises rt ! j
         \<and> (j \<in> set (started (foldl fire rt ts)) \<longleftrightarrow> j \<in> set (started rt))"
  using assms
proof (induction ts arbitrary: rt)
  case Nil
  then show ?case by simp
next
  case (Cons t ts)
  from Cons.prems have tj: "fst t \<noteq> j" and rest: "j \<notin> fst ` set ts" by auto
  note f = fire_retired[OF Cons.prems(1) tj]
  from Cons.IH[OF f(1) rest] f(2,3) show ?case by simp
qed

lemma retired_step:
  assumes "retired j rt"
  shows "retired j (step rt e)
         \<and> promises (step rt e) ! j = promises rt ! j
         \<and> (j \<in> set (started (step rt e)) \<longleftrightarrow> j \<in> set (started rt))"
proof (cases e)
  case (Trigger d p)
  define rt1 where "rt1 = clearTimeout rt"
  have r1: "retired j rt1" and p1: "promises rt1 = promises rt" and s1: "started rt1 = started rt"
    using assms
    by (auto simp: rt1_def clearTimeout_def retired_def split: option.splits)
  define rt2 where "rt2 = cancelLastRequest rt1"
  have r2: "retired j rt2" and p2: "promises rt2 ! j = promises rt1 ! j"
    and s2: "started rt2 = started rt1"
  proof -
    show "started rt2 = started rt1"
      by (simp add: rt2_def cancelLastRequest_def split: option.splits prod.splits)
    have nj: "r \<noteq> j" if "(r, rq) \<in> set (inflight rt1)" for r rq
      using r1 that by (force simp: retired_def)
    show "retired j rt2" and "promises rt2 ! j = promises rt1 ! j"
      using r1
      by (auto simp: rt2_def cancelLastRequest_def retired_def
               split: option.splits prod.splits dest!: map_of_SomeD dest: nj)
  qed
  have "step rt e = rt2\<lparr>prov := (prov rt2)\<lparr>debounceTimeout := Some (length (promises rt))\<rparr>,
             timers := timers rt2 @ [(length (promises rt), clock rt2 + DEBOUNCE_DELAY, d, p)],
             promises := promises rt2 @ [Pending]\<rparr>"
    by (simp add: Trigger trigger_def Let_def rt2_def rt1_def)
  moreover from r2 p1 have "j < length (promises rt2)" and "j \<noteq> length (promises rt)"
    using assms by (auto simp: retired_def rt2_def cancelLastRequest_def rt1_def clearTimeout_def
                        split: option.splits prod.splits)
  ultimately show ?thesis
    using r2 p2 p1 s2 s1 by (auto simp: retired_def nth_append)
next
  case (Elapse n)
  define rt1 where "rt1 = rt\<lparr>clock := clock rt + n,
                              timers := filter (\<lambda>t. \<not> fst (snd t) \<le> clock rt + n) (timers rt)\<rparr>"
  have r1: "retired j rt1" using assms by (auto simp: rt1_def retired_def)
  have nj: "j \<notin> fst ` set (filter (\<lambda>t. fst (snd t) \<le> clock rt + n) (timers rt))"
    using assms by (auto simp: retired_def)
  have "step rt e = foldl fire rt1 (filter (\<lambda>t. fst (snd t) \<le> clock rt + n) (timers rt))"
    by (simp add: Elapse elapse_def Let_def rt1_def)
  with foldl_fire_retired[OF r1 nj] show ?thesis by (simp add: rt1_def)
next
  case (Respond k res)
  have nj: "r \<noteq> j" if "(r, rq) \<in> set (inflight rt)" for r rq
    using assms that by (force simp: retired_def)
  show ?thesis
    using assms
    by (auto simp: Respond respond_def retired_def
             split: option.splits prod.splits dest!: map_of_SomeD dest: nj)
qed

lemma retired_run:
  assumes "retired j rt"
  shows "retired j (run rt evs)
         \<and> promises (run rt evs) ! j = promises rt ! j
         \<and> (j \<in> set (started (run rt evs)) \<longleftrightarrow> j \<in> set (started rt))"
  using assms
proof (induction evs arbitrary: rt)
  case Nil
  then show ?case by (simp add: run_Nil)
next
  case (Cons e es)
  from retired_step[OF Cons.prems, of e] Cons.IH[of "step rt e"]
  show ?case by (simp add: run_Cons)
qed

text \<open>The state behind a burst of triggers.\<close>

lemma rapid_triggers_snoc:
  "rapid_triggers first (later @ [(gap, d, p)]) = rapid_triggers first later @ [Elapse gap, Trigger d p]"
  by (simp add: rapid_triggers_def)

lemma burst_state:
  assumes "single_flight rt" and "\<forall>x\<in>set later. fst x < DEBOUNCE_DELAY"
  shows "single_flight (run rt (rapid_triggers first later))
     \<and> timers (run rt (rapid_triggers first later))
         = [(length (promises rt) + length later,
             clock (run rt (rapid_triggers first later)) + DEBOUNCE_DELAY,
             fst (last_trigger first later), snd (last_trigger first later))]
     \<and> inflight (run rt (rapid_triggers first later)) = []
     \<and> started (run rt (rapid_triggers first later)) = started rt
     \<and> length (promises (run rt (rapid_triggers first later))) = Suc (length (promises rt) + length later)
     \<and> (\<forall>j<length (promises rt).
           promises (run rt (rapid_triggers first later)) ! j = promises rt ! j
           \<or> promises (run rt (rapid_triggers first later)) ! j = Resolved [])
     \<and> (\<forall>j. length (promises rt) \<le> j \<longrightarrow> j \<le> length (promises rt) + length later
           \<longrightarrow> promises (run rt (rapid_triggers first later)) ! j = Pending)
     \<and> prov (run rt (rapid_triggers first later))
         = (prov rt)\<lparr>debounceTimeout := Some (length (promises rt) + length later)\<rparr>"
  using assms(2)
proof (induction later rule: rev_induct)
  case Nil
  have r: "run rt (rapid_triggers first []) = trigger rt (fst first) (snd first)"
    by (simp add: rapid_triggers_def run_Cons run_Nil)
  note t = trigger_state[OF assms(1), where d = "fst first" and p = "snd first"]
  show ?case
    unfolding r using t(1-6,9) t(8) by (auto simp: last_trigger_def trigger_prov)
next
  case (snoc x later)
  obtain gap d p where x: "x = (gap, d, p)" by (cases x)
  from snoc.prems x have gap: "gap < DEBOUNCE_DELAY" and prev: "\<forall>x\<in>set later. fst x < DEBOUNCE_DELAY"
    by auto
  define rt1 where "rt1 = run rt (rapid_triggers first later)"
  note ih = snoc.IH[OF prev, folded rt1_def]
  define rt2 where "rt2 = rt1\<lparr>clock := clock rt1 + gap\<rparr>"
  have e: "elapse rt1 gap = rt2"
    unfolding rt2_def using ih gap by (intro elapse_not_due) simp
  from ih have sf1: "single_flight rt1"
    and t1: "timers rt1 = [(length (promises rt) + length later, clock rt1 + DEBOUNCE_DELAY,
                            fst (last_trigger first later), snd (last_trigger first later))]"
    by blast+
  have sf2: "single_flight rt2"
    using sf1 by (simp add: rt2_def single_flight_def t1)
  have i2: "inflight rt2 = []" using ih by (simp add: rt2_def)
  have p2: "promises rt2 = promises rt1" by (simp add: rt2_def)
  have r: "run rt (rapid_triggers first (later @ [x])) = trigger rt2 d p"
    by (simp add: x rapid_triggers_snoc run_append run_Cons run_Nil rt1_def[symmetric] e)
  note t = trigger_state[OF sf2, where d = d and p = p]
  have lt: "last_trigger first (later @ [x]) = (d, p)"
    by (simp add: last_trigger_def x)
  show ?case
    unfolding r lt using t(1-5,9) t(7)[OF i2] ih
    by (auto simp: p2 rt2_def nth_append trigger_prov)
qed

section \<open>Only the last trigger of a burst runs\<close>

text \<open>The timer callback of an invocation, and the end of its HTTP call, on an idle system.\<close>

lemma fire_pipeline:
  assumes "inflight rt = []" and "k < length (promises rt)"
  shows "prov (fire rt (k, due, d, p)) = fst (completionUntilRequest (prov rt) k d p)"
    and "(case snd (completionUntilRequest (prov rt) k d p) of
            Settled r \<Rightarrow> promises (fire rt (k, due, d, p)) ! k = settle r
                         \<and> inflight (fire rt (k, due, d, p)) = []
          | Awaiting rq \<Rightarrow> promises (fire rt (k, due, d, p)) ! k = promises rt ! k
                         \<and> inflight (fire rt (k, due, d, p)) = [(k, rq)])"
    and "prov (respond (fire rt (k, due, d, p)) k res)
           = fst (debouncedCompletion (prov rt) k d p res)"
    and "promises (respond (fire rt (k, due, d, p)) k res) ! k
           = settle (snd (debouncedCompletion (prov rt) k d p res))"
    and "inflight (respond (fire rt (k, due, d, p)) k res) = []"
proof -
  obtain s' pr where c: "completionUntilRequest (prov rt) k d p = (s', pr)"
    by (cases "completionUntilRequest (prov rt) k d p")
  show "prov (fire rt (k, due, d, p)) = fst (completionUntilRequest (prov rt) k d p)"
    by (simp add: fire_def c split: progress.splits)
  show "(case snd (completionUntilRequest (prov rt) k d p) of
            Settled r \<Rightarrow> promises (fire rt (k, due, d, p)) ! k = settle r
                         \<and> inflight (fire rt (k, due, d, p)) = []
          | Awaiting rq \<Rightarrow> promises (fire rt (k, due, d, p)) ! k = promises rt ! k
                         \<and> inflight (fire rt (k, due, d, p)) = [(k, rq)])"
    using assms by (simp add: fire_def c split: progress.splits)
  show "prov (respond (fire rt (k, due, d, p)) k res)
           = fst (debouncedCompletion (prov rt) k d p res)"
    using assms
    by (cases pr) (simp_all add: fire_def respond_def debouncedCompletion_def c split: prod.splits)
  show "promises (respond (fire rt (k, due, d, p)) k res) ! k
           = settle (snd (debouncedCompletion (prov rt) k d p res))"
    using assms
    by (cases pr)
       (simp_all add: fire_def respond_def debouncedCompletion_def c settle_def split: prod.splits)
  show "inflight (respond (fire rt (k, due, d, p)) k res) = []"
    using assms
    by (cases pr) (simp_all add: fire_def respond_def c split: prod.splits)
qed

lemma settle_not_Pending:
  "settle r \<noteq> Pending"
  by (simp add: settle_def split: sum.splits)

text \<open>
  Claim C1.  After any history of the provider, take a burst of triggers in which each
  trigger comes less than the debounce delay after the one before it, and let \<open>final\<close> be
  the number of its last trigger, on the document \<open>d\<close> at the position \<open>p\<close>.  Behind the
  burst the only timer armed is the one of the last trigger (the timers of the earlier
  ones were cleared), no HTTP call is under way (a call of an earlier invocation was
  cancelled), no further debounced function has begun, and the burst has changed nothing
  of the provider but the timer handle.

  After a quiet period of the debounce delay exactly the debounced function of the last
  trigger has begun, and it has run on the provider as the burst left it: the provider
  is in the state that the first half of the pipeline yields for \<open>d\<close> and \<open>p\<close>; when that
  half ends the pipeline (by an early return or an error), the promise of the last
  trigger is settled with its outcome and no call is under way; otherwise the one call
  under way is the call that it prepared.  Once the call has ended with \<open>res\<close>, the
  provider is in the state, and the promise of the last trigger is settled with the
  result, that the whole pipeline yields on \<open>d\<close>, \<open>p\<close> and \<open>res\<close>.

  Whatever happens later, no earlier trigger of the burst ever begins its debounced
  function, and the promise of every earlier invocation is pending for ever (a trigger
  of the burst), or was resolved with the empty list by the cancellation, or is what it
  was before the burst.
\<close>

theorem only_last_trigger_of_burst_runs:
  assumes "\<forall>x\<in>set later. fst x < DEBOUNCE_DELAY"
  shows "let before = run new_runtime history;
             final = length (promises before) + length later;
             burst = run before (rapid_triggers first later);
             d = fst (last_trigger first later);
             p = snd (last_trigger first later);
             quiet = run burst [Elapse DEBOUNCE_DELAY];
             ended = run burst [Elapse DEBOUNCE_DELAY, Respond final res]
         in timers burst = [(final, clock burst + DEBOUNCE_DELAY, d, p)]
          \<and> inflight burst = []
          \<and> started burst = started before
          \<and> prov burst = (prov before)\<lparr>debounceTimeout := Some final\<rparr>
          \<and> started quiet = started before @ [final]
          \<and> prov quiet = fst (completionUntilRequest (prov burst) final d p)
          \<and> (case snd (completionUntilRequest (prov burst) final d p) of
                Settled r \<Rightarrow> promises quiet ! final = settle r \<and> inflight quiet = []
              | Awaiting rq \<Rightarrow> promises quiet ! final = Pending \<and> inflight quiet = [(final, rq)])
          \<and> prov ended = fst (debouncedCompletion (prov burst) final d p res)
          \<and> promises ended ! final = settle (snd (debouncedCompletion (prov burst) final d p res))
          \<and> promises ended ! final \<noteq> Pending
          \<and> inflight ended = []
          \<and> (\<forall>future j. j < final \<longrightarrow>
                (j \<in> set (started (run burst future)) \<longleftrightarrow> j \<in> set (started before))
                \<and> (if j < length (promises before)
                    then promises (run burst future) ! j = promises before ! j
                         \<or> promises (run burst future) ! j = Resolved []
                    else promises (run burst future) ! j = Pending))"
proof -
  define before where "before = run new_runtime history"
  define final where "final = length (promises before) + length later"
  define burst where "burst = run before (rapid_triggers first later)"
  define d where "d = fst (last_trigger first later)"
  define p where "p = snd (last_trigger first later)"
  define quiet where "quiet = run burst [Elapse DEBOUNCE_DELAY]"
  define ended where "ended = run burst [Elapse DEBOUNCE_DELAY, Respond final res]"
  have sf: "single_flight before"
    unfolding before_def by (rule single_flight_run) (rule single_flight_new)
  note bs = burst_state[OF sf assms, of first, folded burst_def final_def d_def p_def]
  from bs have t: "timers burst = [(final, clock burst + DEBOUNCE_DELAY, d, p)]"
    and i: "inflight burst = []"
    and s: "started burst = started before"
    and l: "length (promises burst) = Suc final"
    and old: "\<forall>j<length (promises before).
                 promises burst ! j = promises before ! j \<or> promises burst ! j = Resolved []"
    and new: "\<forall>j. length (promises before) \<le> j \<longrightarrow> j \<le> final \<longrightarrow> promises burst ! j = Pending"
    and pb: "prov burst = (prov before)\<lparr>debounceTimeout := Some final\<rparr>"
    by blast+
  define idle where "idle = burst\<lparr>clock := clock burst + DEBOUNCE_DELAY, timers := []\<rparr>"
  have e: "quiet = fire idle (final, clock burst + DEBOUNCE_DELAY, d, p)"
    unfolding idle_def quiet_def using t by (simp add: run_Cons run_Nil elapse_due)
  have r: "ended = respond (fire idle (final, clock burst + DEBOUNCE_DELAY, d, p)) final res"
    using e by (simp add: run_Cons run_Nil quiet_def ended_def)
  have li: "final < length (promises idle)" and ii: "inflight idle = []"
    and pi: "prov idle = prov burst" and fi: "promises idle ! final = Pending"
    using l i new by (simp_all add: idle_def final_def)
  note fp = fire_pipeline(1,2)[OF ii li, of "clock burst + DEBOUNCE_DELAY" d p,
                folded e, unfolded pi fi]
    fire_pipeline(3,4,5)[OF ii li, of "clock burst + DEBOUNCE_DELAY" d p res,
                folded r, unfolded pi]
  have q1: "started quiet = started before @ [final]"
    unfolding e fire_state(1) by (simp add: idle_def s)
  have q4: "promises ended ! final \<noteq> Pending"
    unfolding fp(4) by (rule settle_not_Pending)
  have later_on: "(j \<in> set (started (run burst future)) \<longleftrightarrow> j \<in> set (started before))
                \<and> (if j < length (promises before)
                    then promises (run burst future) ! j = promises before ! j
                         \<or> promises (run burst future) ! j = Resolved []
                    else promises (run burst future) ! j = Pending)"
    if "j < final" for future j
  proof -
    from that t i l have "retired j burst" by (simp add: retired_def)
    from retired_run[OF this, of future]
    have 1: "promises (run burst future) ! j = promises burst ! j"
      and 2: "j \<in> set (started (run burst future)) \<longleftrightarrow> j \<in> set (started burst)"
      by blast+
    from old new that have "if j < length (promises before)
                    then promises burst ! j = promises before ! j \<or> promises burst ! j = Resolved []
                    else promises burst ! j = Pending"
      by simp
    with 1 2 s show ?thesis by simp
  qed
  have "timers burst = [(final, clock burst + DEBOUNCE_DELAY, d, p)]
          \<and> inflight burst = []
          \<and> started burst = started before
          \<and> prov burst = (prov before)\<lparr>debounceTimeout := Some final\<rparr>
          \<and> started quiet = started before @ [final]
          \<and> prov quiet = fst (completionUntilRequest (prov burst) final d p)
          \<and> (case snd (completionUntilRequest (prov burst) final d p) of
                Settled r \<Rightarrow> promises quiet ! final = settle r \<and> inflight quiet = []
              | Awaiting rq \<Rightarrow> promises quiet ! final = Pending \<and> inflight quiet = [(final, rq)])
          \<and> prov ended = fst (debouncedCompletion (prov burst) final d p res)
          \<and> promises ended ! final = settle (snd (debouncedCompletion (prov burst) final d p res))
          \<and> promises ended ! final \<noteq> Pending
          \<and> inflight ended = []
          \<and> (\<forall>future j. j < final \<longrightarrow>
                (j \<in> set (started (run burst future)) \<longleftrightarrow> j \<in> set (started before))
                \<and> (if j < length (promises before)
                    then promises (run burst future) ! j = promises before ! j
                         \<or> promises (run burst future) ! j = Resolved []
                    else promises (run burst future) ! j = Pending))"
    using t i s pb q1 fp(1) fp(2) fp(3) fp(4) q4 fp(5) later_on by blast
  then show ?thesis
    unfolding Let_def before_def final_def burst_def d_def p_def quiet_def ended_def .
qed

theorem only_last_trigger_of_burst_runs_witness:
  "fst (100::nat, console_document, \<lparr>line = 0, character = 13\<rparr>) < DEBOUNCE_DELAY
   \<and> started (run (run (run new_runtime [])
                 (rapid_triggers (short_document, \<lparr>line = 0, character = 1\<rparr>)
                    [(100, console_document, \<lparr>line = 0, character = 13\<rparr>)]))
               [Elapse DEBOUNCE_DELAY])
       = [1]
   \<and> map fst (inflight (run (run (run new_runtime [])
                 (rapid_triggers (short_document, \<lparr>line = 0, character = 1\<rparr>)
                    [(100, console_document, \<lparr>line = 0, character = 13\<rparr>)]))
               [Elapse DEBOUNCE_DELAY]))
       = [1]
   \<and> promises (run (run (run new_runtime [])
                 (rapid_triggers (short_document, \<lparr>line = 0, character = 1\<rparr>)
                    [(100, console_document, \<lparr>line = 0, character = 13\<rparr>)]))
               [Elapse DEBOUNCE_DELAY, Respond 1 (Fulfilled (Choices [Str ''hello'']))]) ! 1
       = Resolved [\<lparr>insertText = ''console.log('' @ [dquote] @ ''hello'' @ [dquote] @ '')'',
                    item_range = (\<lparr>line = 0, character = 0\<rparr>,
                                  \<lparr>line = 0, character = 13\<rparr>)\<rparr>]
   \<and> promises (run (run (run new_runtime [])
                 (rapid_triggers (short_document, \<lparr>line = 0, character = 1\<rparr>)
                    [(100, console_document, \<lparr>line = 0, character = 13\<rparr>)]))
               [Elapse DEBOUNCE_DELAY, Respond 1 (Fulfilled (Choices [Str ''hello'']))]) ! 0
       = Pending"
proof -
  define first where "first = (short_document, \<lparr>line = 0, character = 1\<rparr>)"
  define later where "later = [(100::nat, console_document, \<lparr>line = 0, character = 13\<rparr>)]"
  define res where "res = Fulfilled (Choices [Str ''hello''])"
  define before where "before = run new_runtime []"
  define burst where "burst = run before (rapid_triggers first later)"
  have h: "\<forall>x\<in>set later. fst x < DEBOUNCE_DELAY"
    by (simp add: later_def DEBOUNCE_DELAY_def)
  have n: "length (promises before) + length later = 1"
    unfolding before_def later_def by code_simp
  have b: "started before = []" "length (promises before) = 0"
    unfolding before_def by code_simp+
  have a: "case snd (completionUntilRequest (prov burst) 1 (fst (last_trigger first later))
                       (snd (last_trigger first later))) of
             Settled r \<Rightarrow> False | Awaiting rq \<Rightarrow> True"
    unfolding burst_def before_def first_def later_def by code_simp
  have v: "settle (snd (debouncedCompletion (prov burst) 1 (fst (last_trigger first later))
                          (snd (last_trigger first later)) res))
           = Resolved [\<lparr>insertText = ''console.log('' @ [dquote] @ ''hello'' @ [dquote] @ '')'',
                        item_range = (\<lparr>line = 0, character = 0\<rparr>,
                                      \<lparr>line = 0, character = 13\<rparr>)\<rparr>]"
    unfolding burst_def before_def first_def later_def res_def by code_simp
  note th = only_last_trigger_of_burst_runs[OF h, of "[]" first res,
              unfolded Let_def, folded before_def, unfolded n, folded burst_def]
  from th have 1: "started (run burst [Elapse DEBOUNCE_DELAY]) = started before @ [1]"
    and 2: "case snd (completionUntilRequest (prov burst) 1 (fst (last_trigger first later))
                       (snd (last_trigger first later))) of
              Settled r \<Rightarrow> promises (run burst [Elapse DEBOUNCE_DELAY]) ! 1 = settle r
                           \<and> inflight (run burst [Elapse DEBOUNCE_DELAY]) = []
            | Awaiting rq \<Rightarrow> promises (run burst [Elapse DEBOUNCE_DELAY]) ! 1 = Pending
                           \<and> inflight (run burst [Elapse DEBOUNCE_DELAY]) = [(1, rq)]"
    and 3: "promises (run burst [Elapse DEBOUNCE_DELAY, Respond 1 res]) ! 1
              = settle (snd (debouncedCompletion (prov burst) 1 (fst (last_trigger first later))
                          (snd (last_trigger first later)) res))"
    and 4: "\<forall>future j. j < 1 \<longrightarrow>
                (j \<in> set (started (run burst future)) \<longleftrightarrow> j \<in> set (started before))
                \<and> (if j < length (promises before)
                    then promises (run burst future) ! j = promises before ! j
                         \<or> promises (run burst future) ! j = Resolved []
                    else promises (run burst future) ! j = Pending)"
    by blast+
  from a 2 have 5: "map fst (inflight (run burst [Elapse DEBOUNCE_DELAY])) = [1]"
    by (simp split: progress.splits)
  from 4 b have 6: "promises (run burst [Elapse DEBOUNCE_DELAY, Respond 1 res]) ! 0 = Pending"
    by simp
  have "fst (100::nat, console_document, \<lparr>line = 0, character = 13\<rparr>) < DEBOUNCE_DELAY"
    by (simp add: DEBOUNCE_DELAY_def)
  with 1 b 5 3 v 6 show ?thesis
    unfolding burst_def before_def first_def later_def res_def by simp
qed

section \<open>Every path of a fired invocation ends in a list\<close>

text \<open>
  Claim C2, as stated, speaks of every invocation of \<open>provideInlineCompletionItems\<close>.  The
  promise an invocation returns is resolved by its timer callback only, and a later
  trigger clears that timer: of two triggers 100 time units apart the first keeps its
  promise pending when the system has come to rest, with no timer armed and no HTTP
  call under way, so nothing is left that could settle it.
\<close>

theorem superseded_promise_stays_pending:
  "promises (run new_runtime two_triggers) = [Pending, Resolved []]
   \<and> timers (run new_runtime two_triggers) = []
   \<and> inflight (run new_runtime two_triggers) = []"
  by code_simp

text \<open>Whatever happens afterwards, that promise stays pending.\<close>

lemma superseded_promise_pending_for_ever:
  "promises (run (run new_runtime two_triggers) future) ! 0 = Pending"
proof -
  have r: "retired 0 (run new_runtime two_triggers)" by code_simp
  have p: "promises (run new_runtime two_triggers) ! 0 = Pending" by code_simp
  from retired_run[OF r, of future] p show ?thesis by simp
qed

text \<open>
  Claim C2, amended: for every invocation whose debounce timer fires, on a position
  inside the document, and for every outcome of the HTTP call (a response of any shape,
  a transport error or timeout, a cancellation), the debounced function throws nothing
  and returns the empty list or a list of one suggestion.
\<close>

theorem fired_invocation_settles:
  assumes "line p < length (text_lines d)"
  shows "\<exists>items. snd (debouncedCompletion s k d p res) = Inr items \<and> length items \<le> 1"
  using assms
proof (cases rule: completionUntilRequest_cases[where s = s and k = k])
  case early
  then show ?thesis by (simp add: debouncedCompletion_def)
next
  case (request cc f sys pr)
  then show ?thesis
    using completionAfterResponse_length
    by (simp add: debouncedCompletion_def split: prod.splits) (metis snd_conv)
qed

theorem fired_invocation_settles_witness:
  "line \<lparr>line = 0, character = 13\<rparr> < length (text_lines console_document)
   \<and> (\<exists>items. snd (debouncedCompletion new_provider 0 console_document \<lparr>line = 0, character = 13\<rparr>
                      (Failed (Error ''timeout of 10000ms exceeded''))) = Inr items
              \<and> length items \<le> 1)"
proof -
  have h: "line \<lparr>line = 0, character = 13\<rparr> < length (text_lines console_document)"
    by code_simp
  from fired_invocation_settles[OF h] h show ?thesis by blast
qed

section \<open>The retained record of the last function\<close>

lemma analyzeCodeBlock_lastDefinedFunction:
  "(windowDeclarations d p = [] \<longrightarrow>
      lastDefinedFunction (fst (analyzeCodeBlock s d p)) = lastDefinedFunction s)
   \<and> (lastDefinedFunction (fst (analyzeCodeBlock s d p)) = lastDefinedFunction s
      \<or> lastDefinedFunction (fst (analyzeCodeBlock s d p)) \<noteq> None)"
  by (subst (1 2 3) analyzeCodeBlock_fst) (simp split: option.splits)

lemma completionUntilRequest_retained:
  "(windowDeclarations d p = [] \<longrightarrow>
      lastDefinedFunction (fst (completionUntilRequest s k d p)) = lastDefinedFunction s)
   \<and> (lastDefinedFunction (fst (completionUntilRequest s k d p)) = lastDefinedFunction s
      \<or> lastDefinedFunction (fst (completionUntilRequest s k d p)) \<noteq> None)"
  using completionUntilRequest_lastDefinedFunction[of s k d p]
    analyzeCodeBlock_lastDefinedFunction[of d p "s\<lparr>currentLanguage := detectLanguage d\<rparr>"]
  by auto

lemma fire_retained:
  assumes "lastDefinedFunction (prov rt) \<noteq> None"
  shows "lastDefinedFunction (prov (fire rt t)) \<noteq> None"
proof -
  obtain k due d p where t: "t = (k, due, d, p)" by (cases t)
  obtain s' r where c: "completionUntilRequest (prov rt) k d p = (s', r)"
    by (cases "completionUntilRequest (prov rt) k d p")
  from completionUntilRequest_retained[of d p "prov rt" k] c assms
  have "lastDefinedFunction s' \<noteq> None" by auto
  then show ?thesis by (simp add: t fire_def c split: progress.splits)
qed

lemma foldl_fire_retained:
  "lastDefinedFunction (prov rt) \<noteq> None \<Longrightarrow> lastDefinedFunction (prov (foldl fire rt ts)) \<noteq> None"
proof (induction ts arbitrary: rt)
  case Nil
  then show ?case by simp
next
  case (Cons t ts)
  from Cons.IH[OF fire_retained[OF Cons.prems, of t]] show ?case by simp
qed

lemma step_retained:
  assumes "lastDefinedFunction (prov rt) \<noteq> None"
  shows "lastDefinedFunction (prov (step rt e)) \<noteq> None"
proof (cases e)
  case (Trigger d p)
  with assms show ?thesis by (simp add: trigger_prov)
next
  case (Elapse n)
  with assms show ?thesis by (simp add: elapse_def Let_def foldl_fire_retained)
next
  case (Respond k res)
  show ?thesis
  proof (cases "map_of (inflight rt) k")
    case None
    with assms Respond show ?thesis by (simp add: respond_def)
  next
    case (Some rq)
    obtain s' items where c: "completionAfterResponse (prov rt) rq res = (s', items)"
      by (cases "completionAfterResponse (prov rt) rq res")
    with completionAfterResponse_fields[of "prov rt" rq res] assms
    have "lastDefinedFunction s' \<noteq> None" by simp
    then show ?thesis by (simp add: Respond respond_def Some c)
  qed
qed

text \<open>
  Claim C9.  Over every sequence of operations on the provider (triggers, timers
  firing, HTTP calls ending) a retained record that is present stays present.  The
  record is written by the first half of the debounced function only: it is left
  unchanged when the window holds no declaration with a parameter list, and when it
  changes, the window holds such a declaration and the new value is a record.  The
  second half of the debounced function and a trigger leave it unchanged.
\<close>

theorem lastDefinedFunction_only_overwritten:
  "(lastDefinedFunction (prov rt) \<noteq> None \<longrightarrow> lastDefinedFunction (prov (run rt evs)) \<noteq> None)
   \<and> (windowDeclarations d p = [] \<longrightarrow>
        lastDefinedFunction (fst (completionUntilRequest s k d p)) = lastDefinedFunction s)
   \<and> (lastDefinedFunction (fst (completionUntilRequest s k d p)) \<noteq> lastDefinedFunction s \<longrightarrow>
        windowDeclarations d p \<noteq> []
        \<and> lastDefinedFunction (fst (completionUntilRequest s k d p)) \<noteq> None)
   \<and> lastDefinedFunction (fst (completionAfterResponse s rq res)) = lastDefinedFunction s
   \<and> lastDefinedFunction (prov (trigger rt d p)) = lastDefinedFunction (prov rt)"
proof -
  have a: "lastDefinedFunction (prov rt) \<noteq> None \<Longrightarrow> lastDefinedFunction (prov (run rt evs)) \<noteq> None"
  proof (induction evs arbitrary: rt)
    case Nil
    then show ?case by (simp add: run_Nil)
  next
    case (Cons e es)
    from Cons.IH[OF step_retained[OF Cons.prems, of e]] show ?case by (simp add: run_Cons)
  qed
  from a completionUntilRequest_retained[of d p s k] completionAfterResponse_fields[of s rq res]
  show ?thesis by (auto simp: trigger_prov)
qed

theorem lastDefinedFunction_only_overwritten_witness:
  "lastDefinedFunction (prov (run new_runtime [Trigger add_document \<lparr>line = 1, character = 0\<rparr>, Elapse 300]))
     \<noteq> None
   \<and> lastDefinedFunction
        (prov (run (run new_runtime [Trigger add_document \<lparr>line = 1, character = 0\<rparr>, Elapse 300])
                 [Trigger short_document \<lparr>line = 0, character = 1\<rparr>, Elapse 300]))
     \<noteq> None
   \<and> windowDeclarations short_document \<lparr>line = 0, character = 1\<rparr> = []
   \<and> lastDefinedFunction (fst (completionUntilRequest new_provider 0 comment_document \<lparr>line = 1, character = 0\<rparr>))
       = lastDefinedFunction new_provider
   \<and> windowDeclarations comment_document \<lparr>line = 1, character = 0\<rparr> = []
   \<and> lastDefinedFunction (fst (completionUntilRequest new_provider 0 add_document \<lparr>line = 1, character = 0\<rparr>))
       \<noteq> lastDefinedFunction new_provider
   \<and> windowDeclarations add_document \<lparr>line = 1, character = 0\<rparr> \<noteq> []"
proof -
  have h1: "lastDefinedFunction
              (prov (run new_runtime [Trigger add_document \<lparr>line = 1, character = 0\<rparr>, Elapse 300]))
            \<noteq> None"
    by code_simp
  have h2: "windowDeclarations short_document \<lparr>line = 0, character = 1\<rparr> = []"
    by code_simp
  have h3: "windowDeclarations comment_document \<lparr>line = 1, character = 0\<rparr> = []"
    by code_simp
  have h4: "lastDefinedFunction (fst (completionUntilRequest new_provider 0 add_document \<lparr>line = 1, character = 0\<rparr>))
       \<noteq> lastDefinedFunction new_provider"
    by code_simp
  note t1 = lastDefinedFunction_only_overwritten[
      of "run new_runtime [Trigger add_document \<lparr>line = 1, character = 0\<rparr>, Elapse 300]"
         "[Trigger short_document \<lparr>line = 0, character = 1\<rparr>, Elapse 300]"
         comment_document "\<lparr>line = 1, character = 0\<rparr>" new_provider 0]
  note t2 = lastDefinedFunction_only_overwritten[
      of new_runtime "[]" add_document "\<lparr>line = 1, character = 0\<rparr>" new_provider 0]
  from t1 t2 h1 h2 h3 h4 show ?thesis by blast
qed

end
